theory Spec2Isabelle
  imports Complex_Main "HOL-Library.Multiset" "HOL-Library.Char_ord" "HOL-Library.List_Lexorder"
begin

section \<open>JSON values stored in the jsonb columns\<close>

text \<open>
  The columns \<^verbatim>\<open>properties\<close> and \<^verbatim>\<open>defaults\<close> of \<^verbatim>\<open>config_nodes\<close> hold JSON documents.
  A JSON object is kept as the list of its own entries, in the order in which
  \<^verbatim>\<open>Object.assign\<close> visits them. Both columns are taken to hold JSON objects (their
  default is \<^verbatim>\<open>'{}'\<close>), and keys are ordinary data properties: the accessor
  \<^verbatim>\<open>__proto__\<close> of \<^verbatim>\<open>Object.prototype\<close> is outside the model.
\<close>

datatype json =
    JNull
  | JBool bool
  | JNumber real
  | JString string
  | JArray "json list"
  | JObject "(string \<times> json) list"

text \<open>The kinds of value of \<^verbatim>\<open>models.DataType\<close> (models.go) and of \<^verbatim>\<open>propertySchema.type\<close>.\<close>

datatype DataType =
    DataTypeString
  | DataTypeNumber
  | DataTypeBoolean
  | DataTypeObject
  | DataTypeArray
  | DataTypeNull

fun dataTypeOf :: "json \<Rightarrow> DataType" where
  "dataTypeOf JNull = DataTypeNull"
| "dataTypeOf (JBool b) = DataTypeBoolean"
| "dataTypeOf (JNumber x) = DataTypeNumber"
| "dataTypeOf (JString s) = DataTypeString"
| "dataTypeOf (JArray xs) = DataTypeArray"
| "dataTypeOf (JObject kvs) = DataTypeObject"

section \<open>The table \<^verbatim>\<open>config_nodes\<close> (shared schema)\<close>

record ConfigNode =
  node_id :: int
  name :: string
  parentId :: "int option"
  userId :: string
  properties :: "(string \<times> json) list"
  defaults :: "(string \<times> json) list"
  nodeType :: string
  createdAt :: nat
  updatedAt :: nat

text \<open>
  \<^verbatim>\<open>InsertConfigNode\<close>: the insert schema without \<^verbatim>\<open>id\<close>, \<^verbatim>\<open>createdAt\<close> and
  \<^verbatim>\<open>updatedAt\<close>; \<^verbatim>\<open>properties\<close> and \<^verbatim>\<open>defaults\<close> are optional (the column default
  \<^verbatim>\<open>'{}'\<close> applies), \<^verbatim>\<open>parentId\<close> is optional and nullable. Its \<^verbatim>\<open>parentId\<close> is
  \<^verbatim>\<open>z.number()\<close>: any JavaScript number, not only an integer the column can hold.
\<close>

record InsertConfigNode =
  ins_name :: string
  ins_parentId :: "real option"
  ins_userId :: string
  ins_properties :: "(string \<times> json) list option"
  ins_defaults :: "(string \<times> json) list option"
  ins_nodeType :: string

text \<open>
  \<^verbatim>\<open>UpdateConfigNode = insertConfigNodeSchema.partial().omit({ userId: true })\<close>: every
  field of the insert schema but \<^verbatim>\<open>userId\<close>, each optional. An absent field is
  \<open>None\<close>; \<^verbatim>\<open>parentId\<close> may also be supplied as \<^verbatim>\<open>null\<close>, which is \<open>Some None\<close>.
\<close>

record UpdateConfigNode =
  upd_name :: "string option"
  upd_parentId :: "int option option"
  upd_properties :: "(string \<times> json) list option"
  upd_defaults :: "(string \<times> json) list option"
  upd_nodeType :: "string option"

section \<open>DatabaseStorage (server/storage.ts)\<close>

text \<open>
  The table is the list of its rows. Values the database generates (the serial
  \<^verbatim>\<open>id\<close>, the timestamps) are parameters of the operation that needs them. So is
  \<open>stored\<close>, the object the driver hands back for a JSON object written to a
  \<^verbatim>\<open>jsonb\<close> column: serialisation and the column's normal form (key order, repeated
  keys, numbers that JSON cannot write) belong to the driver and to PostgreSQL.

  A statement that fails in the database makes the storage call throw. The two failures
  that a create can meet are a number that is not an integer of the 32-bit column
  \<^verbatim>\<open>integer\<close>, and a \<^verbatim>\<open>parent_id\<close> that no row has
  (\<^verbatim>\<open>references(() => configNodes.id)\<close>).
\<close>

datatype dbError = InvalidInteger | ForeignKeyViolation

definition int4Of :: "real \<Rightarrow> int option" where
  "int4Of x =
     (if x = of_int \<lfloor>x\<rfloor> \<and> - 2147483648 \<le> \<lfloor>x\<rfloor> \<and> \<lfloor>x\<rfloor> \<le> 2147483647
      then Some \<lfloor>x\<rfloor> else None)"

definition getConfigNode :: "ConfigNode list \<Rightarrow> int \<Rightarrow> ConfigNode option" where
  "getConfigNode db i = find (\<lambda>n. node_id n = i) db"

definition childrenOf :: "ConfigNode list \<Rightarrow> int \<Rightarrow> ConfigNode list" where
  "childrenOf db i = filter (\<lambda>n. parentId n = Some i) db"

definition getConfigNodeWithChildren ::
  "ConfigNode list \<Rightarrow> int \<Rightarrow> (ConfigNode \<times> ConfigNode list) option" where
  "getConfigNodeWithChildren db i =
     (case getConfigNode db i of
        None \<Rightarrow> None
      | Some node \<Rightarrow> Some (node, childrenOf db i))"

text \<open>
  \<^verbatim>\<open>getConfigNode\<close> as the create route calls it, with the number of the request body:
  the query throws unless the number is an integer of the column.
\<close>

definition getConfigNode_number ::
  "ConfigNode list \<Rightarrow> real \<Rightarrow> dbError + ConfigNode option" where
  "getConfigNode_number db x =
     (case int4Of x of
        None \<Rightarrow> Inl InvalidInteger
      | Some i \<Rightarrow> Inr (getConfigNode db i))"

text \<open>The value of the column \<^verbatim>\<open>parent_id\<close> of an insert, or the error of the insert.\<close>

definition parentColumn :: "ConfigNode list \<Rightarrow> real option \<Rightarrow> dbError + int option" where
  "parentColumn db p =
     (case p of
        None \<Rightarrow> Inr None
      | Some x \<Rightarrow>
          (case int4Of x of
             None \<Rightarrow> Inl InvalidInteger
           | Some pid \<Rightarrow>
               if getConfigNode db pid = None then Inl ForeignKeyViolation
               else Inr (Some pid)))"

definition createConfigNode ::
  "((string \<times> json) list \<Rightarrow> (string \<times> json) list) \<Rightarrow> ConfigNode list \<Rightarrow> int \<Rightarrow> nat
     \<Rightarrow> InsertConfigNode \<Rightarrow> dbError + ConfigNode list \<times> ConfigNode" where
  "createConfigNode stored db newId now node =
     (case parentColumn db (ins_parentId node) of
        Inl e \<Rightarrow> Inl e
      | Inr parent \<Rightarrow>
          (let createdNode =
             \<lparr> node_id = newId,
               name = ins_name node,
               parentId = parent,
               userId = ins_userId node,
               properties = (case ins_properties node of None \<Rightarrow> [] | Some p \<Rightarrow> stored p),
               defaults = (case ins_defaults node of None \<Rightarrow> [] | Some d \<Rightarrow> stored d),
               nodeType = ins_nodeType node,
               createdAt = now,
               updatedAt = now \<rparr>
           in Inr (db @ [createdNode], createdNode)))"

text \<open>
  \<^verbatim>\<open>updateConfigNode\<close> sets the supplied fields on the rows with the id. The updates
  evaluated below supply no map or the empty object, so the form in which the column
  stores a map plays no part there.
\<close>

definition applyUpdates :: "UpdateConfigNode \<Rightarrow> nat \<Rightarrow> ConfigNode \<Rightarrow> ConfigNode" where
  "applyUpdates updates now n =
     n \<lparr> name := (case upd_name updates of None \<Rightarrow> name n | Some v \<Rightarrow> v),
         parentId := (case upd_parentId updates of None \<Rightarrow> parentId n | Some v \<Rightarrow> v),
         properties := (case upd_properties updates of None \<Rightarrow> properties n | Some v \<Rightarrow> v),
         defaults := (case upd_defaults updates of None \<Rightarrow> defaults n | Some v \<Rightarrow> v),
         nodeType := (case upd_nodeType updates of None \<Rightarrow> nodeType n | Some v \<Rightarrow> v),
         updatedAt := now \<rparr>"

definition updateConfigNode ::
  "ConfigNode list \<Rightarrow> int \<Rightarrow> UpdateConfigNode \<Rightarrow> nat \<Rightarrow> ConfigNode list \<times> ConfigNode option" where
  "updateConfigNode db i updates now =
     (let db' = map (\<lambda>n. if node_id n = i then applyUpdates updates now n else n) db
      in (db', find (\<lambda>n. node_id n = i) db'))"

text \<open>
  \<^verbatim>\<open>getConfigNodePath\<close>: the \<^verbatim>\<open>while (currentId !== null)\<close> loop, with its two
  variables \<^verbatim>\<open>path\<close> and \<^verbatim>\<open>currentId\<close>. The loop has no bound of its own, so it is a
  partial function: \<open>None\<close> is a walk that never returns.
\<close>

partial_function (option) getConfigNodePath_loop ::
  "ConfigNode list \<Rightarrow> ConfigNode list \<Rightarrow> int option \<Rightarrow> ConfigNode list option" where
  "getConfigNodePath_loop db path currentId =
     (case currentId of
        None \<Rightarrow> Some path
      | Some i \<Rightarrow>
          (case getConfigNode db i of
             None \<Rightarrow> Some path
           | Some node \<Rightarrow> getConfigNodePath_loop db (node # path) (parentId node)))"

definition getConfigNodePath :: "ConfigNode list \<Rightarrow> int \<Rightarrow> ConfigNode list option" where
  "getConfigNodePath db i = getConfigNodePath_loop db [] (Some i)"

text \<open>
  \<^verbatim>\<open>Object.assign(target, source)\<close>: every own entry of the source is set on the target,
  in order, overwriting an entry of the same key.
\<close>

definition objectAssign ::
  "(string \<rightharpoonup> json) \<Rightarrow> (string \<times> json) list \<Rightarrow> (string \<rightharpoonup> json)" where
  "objectAssign target source = fold (\<lambda>(k, v) m. m(k \<mapsto> v)) source target"

text \<open>The body of the \<^verbatim>\<open>for (const node of path)\<close> loop of \<^verbatim>\<open>resolveConfiguration\<close>.\<close>

definition resolveStep :: "ConfigNode \<Rightarrow> (string \<rightharpoonup> json) \<Rightarrow> (string \<rightharpoonup> json)" where
  "resolveStep node resolved =
     (objectAssign (objectAssign resolved (defaults node)) (properties node))
       (''$NAME'' \<mapsto> JString (name node))"

definition resolveConfiguration :: "ConfigNode list \<Rightarrow> int \<Rightarrow> (string \<rightharpoonup> json) option" where
  "resolveConfiguration db nodeId =
     (case getConfigNodePath db nodeId of
        None \<Rightarrow> None
      | Some path \<Rightarrow> Some (fold resolveStep path Map.empty))"


text \<open>
  \<^verbatim>\<open>deleteConfigNode\<close> calls itself for every child before it deletes the row. The
  recursion runs on the table as the earlier calls left it, while the list
  \<^verbatim>\<open>children\<close> is the one selected on entry. \<open>Call i\<close> is the call
  \<^verbatim>\<open>deleteConfigNode(i)\<close>; \<open>Loop cs\<close> is the \<^verbatim>\<open>for\<close> loop with the children \<open>cs\<close> still
  to visit. The boolean is \<^verbatim>\<open>result.rowCount > 0\<close>; the loop ignores it.
\<close>

datatype deleteWork = Call int | Loop "ConfigNode list"

partial_function (option) deleteConfigNode_rec ::
  "ConfigNode list \<Rightarrow> deleteWork \<Rightarrow> (ConfigNode list \<times> bool) option" where
  "deleteConfigNode_rec db work =
     (case work of
        Call i \<Rightarrow>
          Option.bind (deleteConfigNode_rec db (Loop (childrenOf db i)))
            (\<lambda>(db', _). Some (filter (\<lambda>n. node_id n \<noteq> i) db',
                               \<exists>n \<in> set db'. node_id n = i))
      | Loop [] \<Rightarrow> Some (db, True)
      | Loop (child # rest) \<Rightarrow>
          Option.bind (deleteConfigNode_rec db (Call (node_id child)))
            (\<lambda>(db', _). deleteConfigNode_rec db' (Loop rest)))"

definition deleteConfigNode :: "ConfigNode list \<Rightarrow> int \<Rightarrow> (ConfigNode list \<times> bool) option" where
  "deleteConfigNode db i = deleteConfigNode_rec db (Call i)"

section \<open>The routes (server/routes.ts)\<close>

text \<open>
  A response is its status with a JSON body, a \<^verbatim>\<open>{ message }\<close> body or no body. The
  caller is \<^verbatim>\<open>req.user.claims.sub\<close>; the path parameter is the parsed integer. A
  handler whose storage call never returns gives no response (\<open>None\<close>).
\<close>

datatype 'a response = Json nat 'a | Message nat string | NoBody nat

fun status :: "'a response \<Rightarrow> nat" where
  "status (Json c b) = c"
| "status (Message c m) = c"
| "status (NoBody c) = c"

definition resolveRoute ::
  "ConfigNode list \<Rightarrow> string \<Rightarrow> int \<Rightarrow> (string \<rightharpoonup> json) response option" where
  "resolveRoute db caller i =
     (case getConfigNode db i of
        None \<Rightarrow> Some (Message 404 ''Config node not found'')
      | Some node \<Rightarrow>
          if userId node \<noteq> caller then Some (Message 403 ''Access denied'')
          else map_option (Json 200) (resolveConfiguration db i))"

definition pathRoute ::
  "ConfigNode list \<Rightarrow> string \<Rightarrow> int \<Rightarrow> ConfigNode list response option" where
  "pathRoute db caller i =
     (case getConfigNode db i of
        None \<Rightarrow> Some (Message 404 ''Config node not found'')
      | Some node \<Rightarrow>
          if userId node \<noteq> caller then Some (Message 403 ''Access denied'')
          else map_option (Json 200) (getConfigNodePath db i))"

text \<open>
  The body of \<^verbatim>\<open>POST /api/config-nodes\<close>, with every field optional as it arrives;
  \<^verbatim>\<open>parentId\<close> absent or \<^verbatim>\<open>null\<close> is \<open>None\<close>. \<^verbatim>\<open>insertConfigNodeSchema.parse\<close> needs
  \<^verbatim>\<open>name\<close> and \<^verbatim>\<open>nodeType\<close>; \<^verbatim>\<open>userId\<close> is the caller's.
\<close>

record CreateBody =
  body_name :: "string option"
  body_parentId :: "real option"
  body_properties :: "(string \<times> json) list option"
  body_defaults :: "(string \<times> json) list option"
  body_nodeType :: "string option"

definition parseInsert :: "string \<Rightarrow> CreateBody \<Rightarrow> InsertConfigNode option" where
  "parseInsert caller body =
     (case body_name body of
        None \<Rightarrow> None
      | Some nm \<Rightarrow>
          (case body_nodeType body of
             None \<Rightarrow> None
           | Some ty \<Rightarrow>
               Some \<lparr> ins_name = nm,
                      ins_parentId = body_parentId body,
                      ins_userId = caller,
                      ins_properties = body_properties body,
                      ins_defaults = body_defaults body,
                      ins_nodeType = ty \<rparr>))"

text \<open>
  \<^verbatim>\<open>if (nodeData.parentId)\<close>: an absent parent and the number 0 are both falsy, and the
  parent is then not looked up. The lookup may throw.
\<close>

definition invalidParent ::
  "ConfigNode list \<Rightarrow> string \<Rightarrow> InsertConfigNode \<Rightarrow> dbError + bool" where
  "invalidParent db caller nodeData =
     (case ins_parentId nodeData of
        None \<Rightarrow> Inr False
      | Some x \<Rightarrow>
          if x = 0 then Inr False
          else (case getConfigNode_number db x of
                  Inl e \<Rightarrow> Inl e
                | Inr None \<Rightarrow> Inr True
                | Inr (Some parent) \<Rightarrow> Inr (userId parent \<noteq> caller)))"

text \<open>
  The handler of \<^verbatim>\<open>POST /api/config-nodes\<close>. An error that is not a \<^verbatim>\<open>ZodError\<close>, thrown
  by the parent lookup or by the insert, reaches the \<^verbatim>\<open>catch\<close> and is answered with 500.
\<close>

definition createRoute ::
  "((string \<times> json) list \<Rightarrow> (string \<times> json) list) \<Rightarrow> ConfigNode list \<Rightarrow> int \<Rightarrow> nat
     \<Rightarrow> string \<Rightarrow> CreateBody \<Rightarrow> ConfigNode list \<times> ConfigNode response" where
  "createRoute stored db newId now caller body =
     (case parseInsert caller body of
        None \<Rightarrow> (db, Message 400 ''Validation error'')
      | Some nodeData \<Rightarrow>
          (case invalidParent db caller nodeData of
             Inl e \<Rightarrow> (db, Message 500 ''Failed to create config node'')
           | Inr True \<Rightarrow> (db, Message 400 ''Invalid parent node'')
           | Inr False \<Rightarrow>
               (case createConfigNode stored db newId now nodeData of
                  Inl e \<Rightarrow> (db, Message 500 ''Failed to create config node'')
                | Inr (db', node) \<Rightarrow> (db', Json 201 node))))"

definition updateRoute ::
  "ConfigNode list \<Rightarrow> nat \<Rightarrow> string \<Rightarrow> int \<Rightarrow> UpdateConfigNode \<Rightarrow> ConfigNode list \<times> ConfigNode response" where
  "updateRoute db now caller i updates =
     (case getConfigNode db i of
        None \<Rightarrow> (db, Message 404 ''Config node not found'')
      | Some existingNode \<Rightarrow>
          if userId existingNode \<noteq> caller then (db, Message 403 ''Access denied'')
          else (case updateConfigNode db i updates now of
                  (db', None) \<Rightarrow> (db', Message 404 ''Config node not found'')
                | (db', Some updatedNode) \<Rightarrow> (db', Json 200 updatedNode)))"

definition deleteRoute ::
  "ConfigNode list \<Rightarrow> string \<Rightarrow> int \<Rightarrow> (ConfigNode list \<times> unit response) option" where
  "deleteRoute db caller i =
     (case getConfigNode db i of
        None \<Rightarrow> Some (db, Message 404 ''Config node not found'')
      | Some existingNode \<Rightarrow>
          if userId existingNode \<noteq> caller then Some (db, Message 403 ''Access denied'')
          else (case deleteConfigNode db i of
                  None \<Rightarrow> None
                | Some (db', deleted) \<Rightarrow>
                    if \<not> deleted then Some (db', Message 404 ''Config node not found'')
                    else Some (db', NoBody 204)))"

section \<open>The normalized variant (backend/internal/database/repository.go)\<close>

record GoConfigNode =
  ID :: int
  Name :: string
  NodeType :: string
  ParentID :: "int option"
  Description :: string

record ConfigProperty =
  PropID :: int
  NodeID :: int
  Key :: string
  Value :: string
  PropDataType :: DataType
  DefaultValue :: "string option"
  PropDescription :: string

record ResolvedConfiguration =
  ResNodeID :: int
  NodeName :: string
  Properties :: "string \<rightharpoonup> json"
  Path :: "GoConfigNode list"

definition GetNodeByID :: "GoConfigNode list \<Rightarrow> int \<Rightarrow> GoConfigNode option" where
  "GetNodeByID nodes i = find (\<lambda>n. ID n = i) nodes"

text \<open>\<^verbatim>\<open>SELECT ... FROM config_properties WHERE node_id = $1 ORDER BY key\<close>.\<close>

definition GetPropertiesByNodeID :: "ConfigProperty list \<Rightarrow> int \<Rightarrow> ConfigProperty list" where
  "GetPropertiesByNodeID props nodeID = sort_key Key (filter (\<lambda>p. NodeID p = nodeID) props)"

partial_function (option) GetNodePath_loop ::
  "GoConfigNode list \<Rightarrow> GoConfigNode list \<Rightarrow> int option \<Rightarrow> GoConfigNode list option" where
  "GetNodePath_loop nodes path currentID =
     (case currentID of
        None \<Rightarrow> Some path
      | Some i \<Rightarrow>
          (case GetNodeByID nodes i of
             None \<Rightarrow> Some path
           | Some node \<Rightarrow> GetNodePath_loop nodes (node # path) (ParentID node)))"

definition GetNodePath :: "GoConfigNode list \<Rightarrow> int \<Rightarrow> GoConfigNode list option" where
  "GetNodePath nodes nodeID = GetNodePath_loop nodes [] (Some nodeID)"

text \<open>
  \<^verbatim>\<open>json.Unmarshal\<close> belongs to Go's library and is a parameter \<open>unmarshal\<close>
  (\<open>None\<close> when it returns an error). A text that does not parse is kept as a string.
\<close>

definition unmarshalValue :: "(string \<Rightarrow> json option) \<Rightarrow> string \<Rightarrow> json" where
  "unmarshalValue unmarshal text =
     (case unmarshal text of None \<Rightarrow> JString text | Some parsed \<Rightarrow> parsed)"

definition applyProperties ::
  "(string \<Rightarrow> json option) \<Rightarrow> ConfigProperty list \<Rightarrow> (string \<rightharpoonup> json) \<Rightarrow> (string \<rightharpoonup> json)" where
  "applyProperties unmarshal rows resolved =
     fold (\<lambda>prop m. m(Key prop \<mapsto> unmarshalValue unmarshal (Value prop))) rows resolved"

definition ResolveConfiguration ::
  "(string \<Rightarrow> json option) \<Rightarrow> GoConfigNode list \<Rightarrow> ConfigProperty list \<Rightarrow> int
     \<Rightarrow> (string + ResolvedConfiguration) option" where
  "ResolveConfiguration unmarshal nodes props nodeID =
     (case GetNodePath nodes nodeID of
        None \<Rightarrow> None
      | Some path \<Rightarrow>
          if length path = 0 then Some (Inl ''node not found'')
          else
            let resolved =
                  fold (\<lambda>node m. applyProperties unmarshal (GetPropertiesByNodeID props (ID node)) m)
                    path Map.empty;
                currentNode = path ! (length path - 1)
            in Some (Inr \<lparr> ResNodeID = nodeID,
                            NodeName = Name currentNode,
                            Properties = resolved,
                            Path = path \<rparr>))"

section \<open>Notions of the specification\<close>

text \<open>
  The parent graph of a table: \<open>(p, c)\<close> is an edge when a row with id \<open>c\<close> names
  \<open>p\<close> as its parent. The data model asks for a forest, \<open>acyclic (parentEdges db)\<close>:
  no node is its own ancestor.
\<close>

definition parentEdges :: "ConfigNode list \<Rightarrow> (int \<times> int) set" where
  "parentEdges db = {(p, c). \<exists>n \<in> set db. node_id n = c \<and> parentId n = Some p}"

text \<open>The ids at or below \<open>p\<close> in the parent graph: \<open>p\<close> and its descendants.\<close>

definition subtreeIds :: "ConfigNode list \<Rightarrow> int \<Rightarrow> int set" where
  "subtreeIds db p = {d. (p, d) \<in> (parentEdges db)\<^sup>*}"

text \<open>The table without the rows whose id is in \<open>D\<close>.\<close>

definition removeIds :: "int set \<Rightarrow> ConfigNode list \<Rightarrow> ConfigNode list" where
  "removeIds D db = filter (\<lambda>n. node_id n \<notin> D) db"

text \<open>
  A path is linked when each element names its predecessor as its parent; its first
  element is an effective root when it has no parent or its parent is not in the table.
\<close>

fun linked :: "ConfigNode list \<Rightarrow> bool" where
  "linked (a # b # rest) = (parentId b = Some (node_id a) \<and> linked (b # rest))"
| "linked _ = True"

definition effectiveRoot :: "ConfigNode list \<Rightarrow> ConfigNode \<Rightarrow> bool" where
  "effectiveRoot db r =
     (case parentId r of None \<Rightarrow> True | Some p \<Rightarrow> getConfigNode db p = None)"

text \<open>
  The mapping a stored JSON object denotes (a later entry of a repeated key wins), the
  keys a node defines, and the fold of the resolver contract: for each node of the path,
  root first, its defaults are merged into the accumulator and then its properties, each
  key overwriting the value the accumulator held.
\<close>

definition asMap :: "(string \<times> json) list \<Rightarrow> (string \<rightharpoonup> json)" where
  "asMap kvs = map_of (rev kvs)"

definition keysOf :: "ConfigNode \<Rightarrow> string set" where
  "keysOf node = fst ` set (defaults node) \<union> fst ` set (properties node)"

definition specStep :: "(string \<rightharpoonup> json) \<Rightarrow> ConfigNode \<Rightarrow> (string \<rightharpoonup> json)" where
  "specStep acc node = (acc ++ asMap (defaults node)) ++ asMap (properties node)"

definition specResolve :: "ConfigNode list \<Rightarrow> (string \<rightharpoonup> json)" where
  "specResolve path = foldl specStep Map.empty path"

text \<open>
  The edges the path walk follows: \<open>(p, c)\<close> when the row \<^verbatim>\<open>getConfigNode\<close> finds for
  \<open>c\<close> names \<open>p\<close> as its parent. The walk from \<open>i\<close> enters a cycle when some ancestor
  of \<open>i\<close> (or \<open>i\<close> itself) is its own ancestor.
\<close>

definition walkEdges :: "ConfigNode list \<Rightarrow> (int \<times> int) set" where
  "walkEdges db = {(p, c). \<exists>n. getConfigNode db c = Some n \<and> parentId n = Some p}"

definition entersCycle :: "ConfigNode list \<Rightarrow> int \<Rightarrow> bool" where
  "entersCycle db i = (\<exists>c. (c, i) \<in> (walkEdges db)\<^sup>* \<and> (c, c) \<in> (walkEdges db)\<^sup>+)"

text \<open>
  Equivalent contents of the two representations. A row of \<^verbatim>\<open>config_nodes\<close> of the
  embedded form and one of the normalized form are the same node when id, name and parent
  agree. The tables are equivalent when they hold the same nodes in the same order,
  \<^verbatim>\<open>(node_id, key)\<close> is unique among the property rows, and for every node the
  properties map is the map of the values of its rows and the defaults map is the map of
  the default values of its rows.
\<close>

definition sameNode :: "ConfigNode \<Rightarrow> GoConfigNode \<Rightarrow> bool" where
  "sameNode n g = (ID g = node_id n \<and> Name g = name n \<and> ParentID g = parentId n)"

definition rowEntries ::
  "(string \<Rightarrow> json option) \<Rightarrow> ConfigProperty list \<Rightarrow> int \<Rightarrow> (string \<times> json) list" where
  "rowEntries unmarshal props i =
     map (\<lambda>p. (Key p, unmarshalValue unmarshal (Value p))) (filter (\<lambda>p. NodeID p = i) props)"

definition defaultEntries ::
  "(string \<Rightarrow> json option) \<Rightarrow> ConfigProperty list \<Rightarrow> int \<Rightarrow> (string \<times> json) list" where
  "defaultEntries unmarshal props i =
     concat (map (\<lambda>p. case DefaultValue p of
                         None \<Rightarrow> []
                       | Some d \<Rightarrow> [(Key p, unmarshalValue unmarshal d)])
               (filter (\<lambda>p. NodeID p = i) props))"

definition equivalentStores ::
  "(string \<Rightarrow> json option) \<Rightarrow> ConfigNode list \<Rightarrow> GoConfigNode list \<Rightarrow> ConfigProperty list \<Rightarrow> bool" where
  "equivalentStores unmarshal db nodes props =
     (list_all2 sameNode db nodes \<and>
      distinct (map (\<lambda>p. (NodeID p, Key p)) props) \<and>
      (\<forall>n \<in> set db.
         asMap (properties n) = map_of (rowEntries unmarshal props (node_id n)) \<and>
         asMap (defaults n) = map_of (defaultEntries unmarshal props (node_id n))))"

section \<open>Example tables\<close>

text \<open>
  The first scenario of the specification: the root \<open>Production\<close> and its child
  \<open>EastCoast\<close>, which here also stores a number under the key \<^verbatim>\<open>$NAME\<close>.
\<close>

definition production :: ConfigNode where
  "production =
     \<lparr> node_id = 1, name = ''Production'', parentId = None, userId = ''alice'',
       properties = [(''cache_enabled'', JBool True)],
       defaults = [(''api_timeout'', JNumber 10)],
       nodeType = ''territory'', createdAt = 0, updatedAt = 0 \<rparr>"

definition eastCoast :: ConfigNode where
  "eastCoast =
     \<lparr> node_id = 2, name = ''EastCoast'', parentId = Some 1, userId = ''alice'',
       properties = [(''region'', JString ''us-east-1''), (''$NAME'', JNumber 5)],
       defaults = [],
       nodeType = ''center'', createdAt = 1, updatedAt = 1 \<rparr>"

definition exampleDb :: "ConfigNode list" where
  "exampleDb = [production, eastCoast]"

definition rootOnlyDb :: "ConfigNode list" where
  "rootOnlyDb = [production]"

text \<open>
  The example table after \<^verbatim>\<open>updateConfigNode(1, { parentId: 2 })\<close>: the root now names
  its own child as its parent.
\<close>

definition cyclicDb :: "ConfigNode list" where
  "cyclicDb =
     fst (updateConfigNode exampleDb 1
       \<lparr> upd_name = None, upd_parentId = Some (Some 2), upd_properties = None,
         upd_defaults = None, upd_nodeType = None \<rparr> 2)"

text \<open>
  Request bodies: a create whose parent does not exist, a create whose parent is not an
  integer of the column, a create under node 1, an update that supplies \<^verbatim>\<open>nodeType\<close> and
  \<^verbatim>\<open>parentId: null\<close>, an update that supplies a name and an empty properties object, and
  two inserts of a node \<open>WestCoast\<close> under \<open>Production\<close>: one that stores a number under
  \<^verbatim>\<open>$NAME\<close>, one that stores a property and a default.
\<close>

definition orphanBody :: CreateBody where
  "orphanBody =
     \<lparr> body_name = Some ''Orphan'', body_parentId = Some 99, body_properties = None,
       body_defaults = None, body_nodeType = Some ''center'' \<rparr>"

definition hugeParentBody :: CreateBody where
  "hugeParentBody =
     \<lparr> body_name = Some ''Orphan'', body_parentId = Some 2147483648, body_properties = None,
       body_defaults = None, body_nodeType = Some ''center'' \<rparr>"

definition childBody :: CreateBody where
  "childBody =
     \<lparr> body_name = Some ''WestCoast'', body_parentId = Some 1, body_properties = None,
       body_defaults = None, body_nodeType = Some ''center'' \<rparr>"

definition retypePatch :: UpdateConfigNode where
  "retypePatch =
     \<lparr> upd_name = None, upd_parentId = Some None, upd_properties = None,
       upd_defaults = None, upd_nodeType = Some ''territory'' \<rparr>"

definition renamePatch :: UpdateConfigNode where
  "renamePatch =
     \<lparr> upd_name = Some ''East'', upd_parentId = None, upd_properties = Some [],
       upd_defaults = None, upd_nodeType = None \<rparr>"

definition namedInsert :: InsertConfigNode where
  "namedInsert =
     \<lparr> ins_name = ''WestCoast'', ins_parentId = Some 1, ins_userId = ''alice'',
       ins_properties = Some [(''$NAME'', JNumber 5)],
       ins_defaults = None, ins_nodeType = ''center'' \<rparr>"

definition regionInsert :: InsertConfigNode where
  "regionInsert =
     \<lparr> ins_name = ''WestCoast'', ins_parentId = Some 1, ins_userId = ''alice'',
       ins_properties = Some [(''region'', JString ''us-west-2'')],
       ins_defaults = Some [(''api_timeout'', JNumber 30)], ins_nodeType = ''center'' \<rparr>"

text \<open>
  A single-entry object with a string or a small integer as its value is handed back by
  the column as it was written; the inserts above supply only such objects.
\<close>

definition storedAsSupplied :: "(string \<times> json) list \<Rightarrow> (string \<times> json) list" where
  "storedAsSupplied kvs = kvs"

text \<open>The rows the two inserts create, with id 3 at time 7.\<close>

definition westCoastNamed :: ConfigNode where
  "westCoastNamed =
     \<lparr> node_id = 3, name = ''WestCoast'', parentId = Some 1, userId = ''alice'',
       properties = [(''$NAME'', JNumber 5)],
       defaults = [],
       nodeType = ''center'', createdAt = 7, updatedAt = 7 \<rparr>"

definition westCoast :: ConfigNode where
  "westCoast =
     \<lparr> node_id = 3, name = ''WestCoast'', parentId = Some 1, userId = ''alice'',
       properties = [(''region'', JString ''us-west-2'')],
       defaults = [(''api_timeout'', JNumber 30)],
       nodeType = ''center'', createdAt = 7, updatedAt = 7 \<rparr>"

text \<open>
  The same two nodes in both representations, with the property \<^verbatim>\<open>api_timeout\<close> set on
  each, and a parser for the three value texts that occur.
\<close>

definition twinProduction :: ConfigNode where
  "twinProduction =
     \<lparr> node_id = 1, name = ''Production'', parentId = None, userId = ''alice'',
       properties = [(''api_timeout'', JNumber 10)],
       defaults = [(''api_timeout'', JNumber 5)],
       nodeType = ''territory'', createdAt = 0, updatedAt = 0 \<rparr>"

definition twinEastCoast :: ConfigNode where
  "twinEastCoast =
     \<lparr> node_id = 2, name = ''EastCoast'', parentId = Some 1, userId = ''alice'',
       properties = [(''api_timeout'', JNumber 30)],
       defaults = [],
       nodeType = ''center'', createdAt = 1, updatedAt = 1 \<rparr>"

definition twinDb :: "ConfigNode list" where
  "twinDb = [twinProduction, twinEastCoast]"

definition goProduction :: GoConfigNode where
  "goProduction =
     \<lparr> ID = 1, Name = ''Production'', NodeType = ''territory'', ParentID = None,
       Description = [] \<rparr>"

definition goEastCoast :: GoConfigNode where
  "goEastCoast =
     \<lparr> ID = 2, Name = ''EastCoast'', NodeType = ''center'', ParentID = Some 1,
       Description = [] \<rparr>"

definition goNodes :: "GoConfigNode list" where
  "goNodes = [goProduction, goEastCoast]"

definition goProps :: "ConfigProperty list" where
  "goProps =
     [\<lparr> PropID = 1, NodeID = 1, Key = ''api_timeout'', Value = ''10'',
        PropDataType = DataTypeNumber, DefaultValue = Some ''5'', PropDescription = [] \<rparr>,
      \<lparr> PropID = 2, NodeID = 2, Key = ''api_timeout'', Value = ''30'',
        PropDataType = DataTypeNumber, DefaultValue = None, PropDescription = [] \<rparr>]"

definition sampleUnmarshal :: "string \<Rightarrow> json option" where
  "sampleUnmarshal text =
     (if text = ''5'' then Some (JNumber 5)
      else if text = ''10'' then Some (JNumber 10)
      else if text = ''30'' then Some (JNumber 30)
      else None)"

section \<open>Auxiliary lemmas\<close>

lemma getConfigNode_SomeD:
  "getConfigNode db i = Some node \<Longrightarrow> node \<in> set db \<and> node_id node = i"
  unfolding getConfigNode_def by (auto simp: find_Some_iff)

lemma getConfigNode_None_iff:
  "getConfigNode db i = None \<longleftrightarrow> i \<notin> node_id ` set db"
  unfolding getConfigNode_def by (auto simp: find_None_iff)

lemma parentEdges_finite: "finite (parentEdges db)"
proof -
  have "parentEdges db \<subseteq> (\<lambda>n. (the (parentId n), node_id n)) ` set db"
    unfolding parentEdges_def by force
  then show ?thesis by (rule finite_surj[rotated]) simp
qed

lemma parentEdges_wf: "acyclic (parentEdges db) \<Longrightarrow> wf (parentEdges db)"
  by (simp add: finite_acyclic_wf parentEdges_finite)

lemma linked_snoc:
  "linked anc \<Longrightarrow> anc \<noteq> [] \<Longrightarrow> parentId node = Some (node_id (last anc))
     \<Longrightarrow> linked (anc @ [node])"
  by (induction anc rule: linked.induct) auto

lemma loop_spec:
  assumes "wf (parentEdges db)"
  shows "\<exists>anc. getConfigNodePath_loop db path (Some i) = Some (anc @ path) \<and>
           (case getConfigNode db i of
              None \<Rightarrow> anc = []
            | Some node \<Rightarrow> anc \<noteq> [] \<and> last anc = node \<and> linked anc \<and>
                (\<forall>x \<in> set anc. getConfigNode db (node_id x) = Some x) \<and>
                effectiveRoot db (hd anc))"
  using assms
proof (induction i arbitrary: path rule: wf_induct_rule)
  case (less i)
  show ?case
  proof (cases "getConfigNode db i")
    case None
    then show ?thesis by (simp add: getConfigNodePath_loop.simps)
  next
    case (Some node)
    note nd = getConfigNode_SomeD[OF Some]
    show ?thesis
    proof (cases "parentId node")
      case None
      with \<open>getConfigNode db i = Some node\<close> nd show ?thesis
        by (simp add: getConfigNodePath_loop.simps effectiveRoot_def)
    next
      case (Some p)
      with nd have "(p, i) \<in> parentEdges db" unfolding parentEdges_def by auto
      from less.IH[OF this, of "node # path"] obtain anc where
        a: "getConfigNodePath_loop db (node # path) (Some p) = Some (anc @ node # path)"
        and b: "(case getConfigNode db p of
              None \<Rightarrow> anc = []
            | Some pn \<Rightarrow> anc \<noteq> [] \<and> last anc = pn \<and> linked anc \<and>
                (\<forall>x \<in> set anc. getConfigNode db (node_id x) = Some x) \<and>
                effectiveRoot db (hd anc))" by blast
      have run: "getConfigNodePath_loop db path (Some i) = Some ((anc @ [node]) @ path)"
        using a Some \<open>getConfigNode db i = Some node\<close>
        by (subst getConfigNodePath_loop.simps) simp
      show ?thesis
      proof (cases "getConfigNode db p")
        case None
        with b have "anc = []" by simp
        with run None Some \<open>getConfigNode db i = Some node\<close> nd show ?thesis
          by (auto simp: effectiveRoot_def)
      next
        case (Some pn)
        with b have c: "anc \<noteq> []" "last anc = pn" "linked anc"
          "\<forall>x \<in> set anc. getConfigNode db (node_id x) = Some x" "effectiveRoot db (hd anc)"
          by auto
        from getConfigNode_SomeD[OF Some] have "node_id pn = p" by simp
        with c \<open>parentId node = Some p\<close> have "linked (anc @ [node])"
          by (intro linked_snoc) auto
        with run c \<open>getConfigNode db i = Some node\<close> nd show ?thesis
          by (intro exI[of _ "anc @ [node]"]) auto
      qed
    qed
  qed
qed

lemma objectAssign_asMap: "objectAssign target source = target ++ asMap source"
proof (induction source arbitrary: target)
  case Nil
  show ?case by (simp add: objectAssign_def asMap_def)
next
  case (Cons e source)
  obtain k v where e: "e = (k, v)" by (cases e)
  have "objectAssign target (e # source) = objectAssign (target(k \<mapsto> v)) source"
    by (simp add: objectAssign_def e)
  also have "\<dots> = target(k \<mapsto> v) ++ asMap source" by (rule Cons.IH)
  also have "\<dots> = target ++ asMap (e # source)"
    by (auto simp: asMap_def e fun_eq_iff map_add_def split: option.splits)
  finally show ?case .
qed

lemma dom_asMap: "dom (asMap kvs) = fst ` set kvs"
  by (simp add: asMap_def dom_map_of_conv_image_fst)

lemma resolveStep_other:
  "k \<noteq> ''$NAME'' \<Longrightarrow> resolveStep node acc k = specStep acc node k"
  by (simp add: resolveStep_def specStep_def objectAssign_asMap)

lemma resolveStep_name: "resolveStep node acc ''$NAME'' = Some (JString (name node))"
  by (simp add: resolveStep_def)

lemma specStep_at:
  "specStep acc node k =
     (case asMap (properties node) k of
        Some v \<Rightarrow> Some v
      | None \<Rightarrow> (case asMap (defaults node) k of Some v \<Rightarrow> Some v | None \<Rightarrow> acc k))"
  by (simp add: specStep_def map_add_def split: option.splits)

lemma specStep_cong: "acc k = acc' k \<Longrightarrow> specStep acc node k = specStep acc' node k"
  by (simp add: specStep_at split: option.splits)

lemma foldl_specStep_cong:
  "acc k = acc' k \<Longrightarrow> foldl specStep acc path k = foldl specStep acc' path k"
proof (induction path arbitrary: acc acc')
  case Nil
  then show ?case by simp
next
  case (Cons x path)
  have "specStep acc x k = specStep acc' x k"
    using Cons.prems by (rule specStep_cong)
  then have "foldl specStep (specStep acc x) path k = foldl specStep (specStep acc' x) path k"
    by (rule Cons.IH)
  then show ?case by simp
qed

lemma fold_resolveStep_other:
  "k \<noteq> ''$NAME'' \<Longrightarrow> acc k = acc' k
     \<Longrightarrow> fold resolveStep path acc k = foldl specStep acc' path k"
proof (induction path arbitrary: acc acc')
  case Nil
  then show ?case by simp
next
  case (Cons x path)
  have "resolveStep x acc k = specStep acc' x k"
    using Cons.prems by (simp add: resolveStep_other specStep_at split: option.splits)
  with Cons.prems(1) have "fold resolveStep path (resolveStep x acc) k = foldl specStep (specStep acc' x) path k"
    by (rule Cons.IH)
  then show ?case by simp
qed

lemma fold_resolveStep_name:
  "path \<noteq> [] \<Longrightarrow> fold resolveStep path acc ''$NAME'' = Some (JString (name (last path)))"
proof (induction path arbitrary: acc)
  case Nil
  then show ?case by simp
next
  case (Cons x path)
  show ?case
  proof (cases "path = []")
    case True
    then show ?thesis by (simp add: resolveStep_name)
  next
    case False
    with Cons.IH[OF False, of "resolveStep x acc"] show ?thesis by simp
  qed
qed

lemma fold_resolveStep_eq:
  assumes "path \<noteq> []"
  shows "fold resolveStep path Map.empty =
           (specResolve path)(''$NAME'' \<mapsto> JString (name (last path)))"
proof
  fix k
  show "fold resolveStep path Map.empty k =
          ((specResolve path)(''$NAME'' \<mapsto> JString (name (last path)))) k"
  proof (cases "k = ''$NAME''")
    case True
    with assms show ?thesis by (simp add: fold_resolveStep_name)
  next
    case False
    then show ?thesis
      by (simp add: specResolve_def fold_resolveStep_other[where acc' = Map.empty])
  qed
qed

lemma foldl_specStep_untouched:
  "\<forall>y \<in> set ys. k \<notin> keysOf y \<Longrightarrow> foldl specStep acc ys k = acc k"
proof (induction ys arbitrary: acc)
  case Nil
  then show ?case by simp
next
  case (Cons y ys)
  from Cons.prems have "k \<notin> keysOf y" by simp
  then have "asMap (properties y) k = None" "asMap (defaults y) k = None"
    using dom_asMap[of "properties y"] dom_asMap[of "defaults y"]
    by (auto simp: keysOf_def domIff)
  then have "specStep acc y k = acc k" by (simp add: specStep_at)
  moreover have "foldl specStep (specStep acc y) ys k = specStep acc y k"
    using Cons by simp
  ultimately show ?case by simp
qed

lemma specResolve_deeper_wins:
  assumes "\<forall>y \<in> set ys. k \<notin> keysOf y"
  shows "specResolve (xs @ a # ys) k =
     (case asMap (properties a) k of
        Some v \<Rightarrow> Some v
      | None \<Rightarrow> (case asMap (defaults a) k of Some v \<Rightarrow> Some v | None \<Rightarrow> specResolve xs k))"
  using foldl_specStep_untouched[OF assms]
  by (simp add: specResolve_def specStep_at split: option.splits)

lemma dom_specStep: "dom (specStep acc node) = dom acc \<union> keysOf node"
  by (auto simp: specStep_def keysOf_def dom_asMap)

lemma dom_foldl_specStep:
  "dom (foldl specStep acc path) = dom acc \<union> (\<Union>x \<in> set path. keysOf x)"
  by (induction path arbitrary: acc) (auto simp: dom_specStep)

lemma dom_specResolve: "dom (specResolve path) = (\<Union>x \<in> set path. keysOf x)"
  by (simp add: specResolve_def dom_foldl_specStep)

lemma path_of_existing:
  assumes "acyclic (parentEdges db)" and "getConfigNode db n = Some node"
  shows "\<exists>path. getConfigNodePath db n = Some path \<and> path \<noteq> [] \<and> last path = node \<and>
           linked path \<and> (\<forall>x \<in> set path. getConfigNode db (node_id x) = Some x) \<and>
           effectiveRoot db (hd path)"
  using loop_spec[OF parentEdges_wf[OF assms(1)], of "[]" n] assms(2)
  by (auto simp: getConfigNodePath_def)

lemma acyclic_parentEdges_increasing:
  assumes "\<forall>n \<in> set db. case parentId n of None \<Rightarrow> True | Some p \<Rightarrow> p < node_id n"
  shows "acyclic (parentEdges db)"
proof (rule acyclicI_order[where f = uminus])
  fix a b
  assume "(a, b) \<in> parentEdges db"
  then obtain n where "n \<in> set db" "node_id n = b" "parentId n = Some a"
    unfolding parentEdges_def by auto
  with assms show "- b < - a" by force
qed

lemma exampleDb_acyclic: "acyclic (parentEdges exampleDb)"
  by (rule acyclic_parentEdges_increasing)
     (simp add: exampleDb_def production_def eastCoast_def)

lemma exampleDb_path: "getConfigNodePath exampleDb 2 = Some [production, eastCoast]"
  by (simp add: getConfigNodePath_def getConfigNodePath_loop.simps getConfigNode_def
      exampleDb_def production_def eastCoast_def)

lemma exampleDb_get2: "getConfigNode exampleDb 2 = Some eastCoast"
  by (simp add: getConfigNode_def exampleDb_def production_def eastCoast_def)

lemma rootOnlyDb_acyclic: "acyclic (parentEdges rootOnlyDb)"
  by (rule acyclic_parentEdges_increasing) (simp add: rootOnlyDb_def production_def)

lemma rootOnlyDb_get1: "getConfigNode rootOnlyDb 1 = Some production"
  by (simp add: getConfigNode_def rootOnlyDb_def production_def)

lemma rootOnlyDb_path: "getConfigNodePath rootOnlyDb 1 = Some [production]"
  by (simp add: getConfigNodePath_def getConfigNodePath_loop.simps getConfigNode_def
      rootOnlyDb_def production_def)

lemma walkEdges_subset: "walkEdges db \<subseteq> parentEdges db"
  unfolding walkEdges_def parentEdges_def by (auto dest: getConfigNode_SomeD)

lemma entersCycle_step:
  assumes "entersCycle db c"
  shows "\<exists>n p. getConfigNode db c = Some n \<and> parentId n = Some p \<and> entersCycle db p"
proof -
  let ?E = "walkEdges db"
  from assms obtain x where x: "(x, c) \<in> ?E\<^sup>*" "(x, x) \<in> ?E\<^sup>+"
    unfolding entersCycle_def by blast
  have "\<exists>p. (p, c) \<in> ?E \<and> entersCycle db p"
  proof (cases "x = c")
    case True
    with x(2) have "(c, c) \<in> ?E\<^sup>+" by simp
    then obtain p where p: "(c, p) \<in> ?E\<^sup>*" "(p, c) \<in> ?E"
      by (auto elim: tranclE dest: trancl_into_rtrancl)
    then have "(p, p) \<in> ?E\<^sup>+" by (meson rtrancl_into_trancl2)
    then have "entersCycle db p" unfolding entersCycle_def by blast
    with p show ?thesis by blast
  next
    case False
    with x(1) obtain p where p: "(x, p) \<in> ?E\<^sup>*" "(p, c) \<in> ?E"
      by (auto elim: rtranclE)
    with x(2) have "entersCycle db p" unfolding entersCycle_def by blast
    with p show ?thesis by blast
  qed
  then show ?thesis unfolding walkEdges_def by auto
qed

lemma loop_diverges:
  "getConfigNodePath_loop db path cur = Some res \<Longrightarrow>
     (\<forall>c. cur = Some c \<longrightarrow> \<not> entersCycle db c)"
proof (induction db path cur res rule: getConfigNodePath_loop.raw_induct[rotated, consumes 1])
  case (1 loop db path cur res)
  show ?case
  proof (intro allI impI)
    fix c assume c: "cur = Some c"
    show "\<not> entersCycle db c"
    proof
      assume "entersCycle db c"
      from entersCycle_step[OF this] obtain n p where
        n: "getConfigNode db c = Some n" "parentId n = Some p" "entersCycle db p" by blast
      with 1(2) c have "loop db (n # path) (Some p) = Some res" by simp
      from 1(1)[OF this] n(3) show False by simp
    qed
  qed
qed

lemma loop_terminates:
  assumes "\<not> entersCycle db i"
  shows "getConfigNodePath_loop db path (Some i) \<noteq> None"
proof -
  let ?E = "walkEdges db"
  define R where "R = {(p, c). (p, c) \<in> ?E \<and> (c, i) \<in> ?E\<^sup>*}"
  have RE: "R \<subseteq> ?E" unfolding R_def by auto
  have "finite R"
    using RE walkEdges_subset parentEdges_finite by (meson finite_subset)
  moreover have "acyclic R"
  proof (rule acyclicI, intro allI notI)
    fix x assume xx: "(x, x) \<in> R\<^sup>+"
    then have "(x, x) \<in> ?E\<^sup>+" using RE trancl_mono by blast
    moreover from xx obtain y where "(y, x) \<in> R" by (auto elim: tranclE)
    then have "(x, i) \<in> ?E\<^sup>*" unfolding R_def by auto
    ultimately have "entersCycle db i" unfolding entersCycle_def by blast
    with assms show False by simp
  qed
  ultimately have "wf R" by (rule finite_acyclic_wf)
  then have "(c, i) \<in> ?E\<^sup>* \<Longrightarrow> getConfigNodePath_loop db path (Some c) \<noteq> None" for c path
  proof (induction c arbitrary: path rule: wf_induct_rule)
    case (less c)
    show ?case
    proof (cases "getConfigNode db c")
      case None
      then show ?thesis by (simp add: getConfigNodePath_loop.simps)
    next
      case (Some n)
      show ?thesis
      proof (cases "parentId n")
        case None
        with Some show ?thesis by (simp add: getConfigNodePath_loop.simps)
      next
        case (Some p)
        with \<open>getConfigNode db c = Some n\<close> have e: "(p, c) \<in> ?E"
          unfolding walkEdges_def by auto
        with less.prems have "(p, c) \<in> R" "(p, i) \<in> ?E\<^sup>*"
          unfolding R_def by auto
        from less.IH[OF this] have "getConfigNodePath_loop db (n # path) (Some p) \<noteq> None" .
        with Some \<open>getConfigNode db c = Some n\<close> show ?thesis
          by (subst getConfigNodePath_loop.simps) simp
      qed
    qed
  qed
  then show ?thesis by blast
qed

lemma cyclicDb_get1: "getConfigNode cyclicDb 1 = Some (production\<lparr>parentId := Some 2, updatedAt := 2\<rparr>)"
  by (simp add: cyclicDb_def updateConfigNode_def applyUpdates_def getConfigNode_def
      exampleDb_def production_def eastCoast_def)

lemma cyclicDb_get2: "getConfigNode cyclicDb 2 = Some eastCoast"
  by (simp add: cyclicDb_def updateConfigNode_def applyUpdates_def getConfigNode_def
      exampleDb_def production_def eastCoast_def)

lemma getConfigNode_append_fresh:
  "i \<notin> node_id ` set db \<Longrightarrow> node_id n = i \<Longrightarrow> getConfigNode (db @ [n]) i = Some n"
  unfolding getConfigNode_def by (induction db) auto

lemma parentEdges_mono: "set db' \<subseteq> set db \<Longrightarrow> parentEdges db' \<subseteq> parentEdges db"
  unfolding parentEdges_def by auto

lemma set_removeIds: "set (removeIds D db) \<subseteq> set db"
  unfolding removeIds_def by auto

lemma subtreeIds_mono: "set db' \<subseteq> set db \<Longrightarrow> subtreeIds db' c \<subseteq> subtreeIds db c"
  unfolding subtreeIds_def using rtrancl_mono[OF parentEdges_mono] by blast

lemma subtreeIds_closed:
  "d \<in> subtreeIds db c \<Longrightarrow> (d, e) \<in> parentEdges db \<Longrightarrow> e \<in> subtreeIds db c"
  unfolding subtreeIds_def by (auto intro: rtrancl_into_rtrancl)

lemma children_ids: "node_id ` set (childrenOf db i) = {c. (i, c) \<in> parentEdges db}"
  unfolding childrenOf_def parentEdges_def by auto

lemma subtreeIds_unfold:
  "subtreeIds db i = insert i (\<Union>c \<in> set (childrenOf db i). subtreeIds db (node_id c))"
proof -
  have "subtreeIds db i = insert i (\<Union>c \<in> {c. (i, c) \<in> parentEdges db}. subtreeIds db c)"
    unfolding subtreeIds_def
    by (auto intro: converse_rtrancl_into_rtrancl elim: converse_rtranclE)
  also have "(\<Union>c \<in> {c. (i, c) \<in> parentEdges db}. subtreeIds db c)
      = (\<Union>c \<in> set (childrenOf db i). subtreeIds db (node_id c))"
    unfolding children_ids[symmetric] by simp
  finally show ?thesis .
qed

lemma subtreeIds_removed:
  assumes closed: "\<And>d e. d \<in> D \<Longrightarrow> (d, e) \<in> parentEdges db \<Longrightarrow> e \<in> D"
    and "e \<in> subtreeIds db c" and "e \<notin> D"
  shows "e \<in> subtreeIds (removeIds D db) c"
proof -
  from assms(2) have "(c, e) \<in> (parentEdges db)\<^sup>*" by (simp add: subtreeIds_def)
  then have "e \<notin> D \<longrightarrow> (c, e) \<in> (parentEdges (removeIds D db))\<^sup>*"
  proof (induction rule: rtrancl_induct)
    case base
    show ?case by simp
  next
    case (step y z)
    show ?case
    proof
      assume z: "z \<notin> D"
      with closed step.hyps(2) have "y \<notin> D" by blast
      with step.IH have cy: "(c, y) \<in> (parentEdges (removeIds D db))\<^sup>*" by simp
      from step.hyps(2) obtain n where "n \<in> set db" "node_id n = z" "parentId n = Some y"
        unfolding parentEdges_def by auto
      with z have "(y, z) \<in> parentEdges (removeIds D db)"
        unfolding parentEdges_def removeIds_def by auto
      with cy show "(c, z) \<in> (parentEdges (removeIds D db))\<^sup>*" by (rule rtrancl_into_rtrancl)
    qed
  qed
  with assms(3) show ?thesis by (simp add: subtreeIds_def)
qed

lemma removeIds_twice:
  assumes "\<And>n. n \<in> set db \<Longrightarrow> node_id n \<notin> D1 \<Longrightarrow> (node_id n \<in> D2' \<longleftrightarrow> node_id n \<in> D2)"
  shows "removeIds D2' (removeIds D1 db) = removeIds (D1 \<union> D2) db"
  unfolding removeIds_def using assms by (auto intro: filter_cong)

lemma delete_loop_spec:
  assumes calls: "\<And>c db. c \<in> set cs \<Longrightarrow> set db \<subseteq> set db0 \<Longrightarrow>
      \<exists>b. deleteConfigNode_rec db (Call (node_id c))
             = Some (removeIds (subtreeIds db (node_id c)) db, b)"
    and "set db \<subseteq> set db0"
  shows "\<exists>b. deleteConfigNode_rec db (Loop cs)
           = Some (removeIds (\<Union>c \<in> set cs. subtreeIds db (node_id c)) db, b)"
  using assms
proof (induction cs arbitrary: db)
  case Nil
  show ?case by (subst deleteConfigNode_rec.simps) (auto simp: removeIds_def)
next
  case (Cons c cs)
  let ?D1 = "subtreeIds db (node_id c)"
  let ?db1 = "removeIds ?D1 db"
  from Cons.prems(1)[of c db] Cons.prems(2) obtain b1 where
    c1: "deleteConfigNode_rec db (Call (node_id c)) = Some (?db1, b1)" by auto
  have sub1: "set ?db1 \<subseteq> set db0" using set_removeIds Cons.prems(2) by blast
  have "\<exists>b. deleteConfigNode_rec ?db1 (Loop cs)
           = Some (removeIds (\<Union>c' \<in> set cs. subtreeIds ?db1 (node_id c')) ?db1, b)"
    by (rule Cons.IH) (use Cons.prems(1) sub1 in auto)
  then obtain b where
    l: "deleteConfigNode_rec ?db1 (Loop cs)
           = Some (removeIds (\<Union>c' \<in> set cs. subtreeIds ?db1 (node_id c')) ?db1, b)" by blast
  have "removeIds (\<Union>c' \<in> set cs. subtreeIds ?db1 (node_id c')) ?db1
      = removeIds (?D1 \<union> (\<Union>c' \<in> set cs. subtreeIds db (node_id c'))) db"
  proof (rule removeIds_twice)
    fix n assume n: "n \<in> set db" "node_id n \<notin> ?D1"
    show "node_id n \<in> (\<Union>c' \<in> set cs. subtreeIds ?db1 (node_id c'))
        \<longleftrightarrow> node_id n \<in> (\<Union>c' \<in> set cs. subtreeIds db (node_id c'))"
    proof
      assume "node_id n \<in> (\<Union>c' \<in> set cs. subtreeIds ?db1 (node_id c'))"
      then show "node_id n \<in> (\<Union>c' \<in> set cs. subtreeIds db (node_id c'))"
        using subtreeIds_mono[OF set_removeIds] by blast
    next
      assume "node_id n \<in> (\<Union>c' \<in> set cs. subtreeIds db (node_id c'))"
      then obtain c' where c': "c' \<in> set cs" "node_id n \<in> subtreeIds db (node_id c')" by blast
      have "node_id n \<in> subtreeIds ?db1 (node_id c')"
        by (rule subtreeIds_removed[OF _ c'(2) n(2)]) (rule subtreeIds_closed)
      with c'(1) show "node_id n \<in> (\<Union>c' \<in> set cs. subtreeIds ?db1 (node_id c'))" by blast
    qed
  qed
  with l have "deleteConfigNode_rec ?db1 (Loop cs)
      = Some (removeIds (\<Union>c' \<in> set (c # cs). subtreeIds db (node_id c')) db, b)"
    by simp
  with c1 show ?case
    by (subst deleteConfigNode_rec.simps) simp
qed

lemma delete_call_spec:
  assumes "wf ((parentEdges db0)\<inverse>)" and "set db \<subseteq> set db0"
  shows "deleteConfigNode_rec db (Call i)
           = Some (removeIds (subtreeIds db i) db, i \<in> node_id ` set db)"
  using assms
proof (induction i arbitrary: db rule: wf_induct_rule)
  case (less i)
  let ?cs = "childrenOf db i"
  let ?U = "\<Union>c \<in> set ?cs. subtreeIds db (node_id c)"
  have E: "parentEdges db \<subseteq> parentEdges db0" using less.prems by (rule parentEdges_mono)
  have "\<exists>b. deleteConfigNode_rec db (Loop ?cs) = Some (removeIds ?U db, b)"
  proof (rule delete_loop_spec[where ?db0.0 = db0])
    fix c db' assume c: "c \<in> set ?cs" and db': "set db' \<subseteq> set db0"
    from c have "(i, node_id c) \<in> parentEdges db" using children_ids[of db i] by blast
    with E have "(node_id c, i) \<in> (parentEdges db0)\<inverse>" by blast
    from less.IH[OF this db']
    show "\<exists>b. deleteConfigNode_rec db' (Call (node_id c))
             = Some (removeIds (subtreeIds db' (node_id c)) db', b)" by blast
  qed (rule less.prems)
  then obtain b where
    l: "deleteConfigNode_rec db (Loop ?cs) = Some (removeIds ?U db, b)" by blast
  have "acyclic (parentEdges db0)"
    using wf_acyclic[OF assms(1)] by simp
  then have acyc: "acyclic (parentEdges db)" using E by (rule acyclic_subset)
  have notin: "i \<notin> ?U"
  proof
    assume "i \<in> ?U"
    then obtain c where c: "c \<in> set ?cs" "i \<in> subtreeIds db (node_id c)" by blast
    from c(1) have "(i, node_id c) \<in> parentEdges db" using children_ids[of db i] by blast
    moreover from c(2) have "(node_id c, i) \<in> (parentEdges db)\<^sup>*" by (simp add: subtreeIds_def)
    ultimately have "(i, i) \<in> (parentEdges db)\<^sup>+" by (rule rtrancl_into_trancl2)
    with acyc show False by (simp add: acyclic_def)
  qed
  have rows: "filter (\<lambda>n. node_id n \<noteq> i) (removeIds ?U db) = removeIds (subtreeIds db i) db"
    by (subst subtreeIds_unfold) (auto simp: removeIds_def intro: filter_cong)
  have flag: "(\<exists>n \<in> set (removeIds ?U db). node_id n = i) \<longleftrightarrow> i \<in> node_id ` set db"
    using notin by (auto simp: removeIds_def)
  show ?case
    by (subst deleteConfigNode_rec.simps) (simp add: l rows flag)
qed

lemma delete_spec:
  assumes "acyclic (parentEdges db)"
  shows "deleteConfigNode db i = Some (removeIds (subtreeIds db i) db, i \<in> node_id ` set db)"
proof -
  have "finite ((parentEdges db)\<inverse>)" by (simp add: parentEdges_finite)
  moreover have "acyclic ((parentEdges db)\<inverse>)" using assms by simp
  ultimately have "wf ((parentEdges db)\<inverse>)" by (rule finite_acyclic_wf)
  then show ?thesis
    unfolding deleteConfigNode_def by (rule delete_call_spec) simp
qed

lemma path_member_ancestor:
  "linked path \<Longrightarrow> set path \<subseteq> set db
     \<Longrightarrow> \<forall>x \<in> set path. (node_id x, node_id (last path)) \<in> (parentEdges db)\<^sup>*"
proof (induction path rule: linked.induct)
  case (1 a b rest)
  have "linked (b # rest)" "set (b # rest) \<subseteq> set db" using "1.prems" by auto
  then have IH: "\<forall>y \<in> set (b # rest).
      (node_id y, node_id (last (b # rest))) \<in> (parentEdges db)\<^sup>*"
    by (rule "1.IH")
  from "1.prems" have "(node_id a, node_id b) \<in> parentEdges db"
    unfolding parentEdges_def by auto
  moreover from IH have "(node_id b, node_id (last (b # rest))) \<in> (parentEdges db)\<^sup>*"
    by simp
  ultimately have "(node_id a, node_id (last (b # rest))) \<in> (parentEdges db)\<^sup>*"
    by (rule converse_rtrancl_into_rtrancl)
  with IH show ?case by simp
qed simp_all

lemma path_ids_in_subtree:
  assumes "acyclic (parentEdges db)" and "getConfigNodePath db d = Some path"
    and "p \<in> node_id ` set path"
  shows "d \<in> subtreeIds db p"
proof (cases "getConfigNode db d")
  case None
  with loop_spec[OF parentEdges_wf[OF assms(1)], of "[]" d] assms(2)
  have "path = []" by (auto simp: getConfigNodePath_def)
  with assms(3) show ?thesis by simp
next
  case (Some node)
  from path_of_existing[OF assms(1) Some] assms(2) have
    p: "last path = node" "linked path" "\<forall>x \<in> set path. getConfigNode db (node_id x) = Some x"
    by auto
  from p(3) have "set path \<subseteq> set db" by (auto dest: getConfigNode_SomeD)
  from path_member_ancestor[OF p(2) this] assms(3) p(1)
  have "(p, node_id node) \<in> (parentEdges db)\<^sup>*" by auto
  with getConfigNode_SomeD[OF Some] show ?thesis by (simp add: subtreeIds_def)
qed

lemma exampleDb_delete_root: "deleteConfigNode exampleDb 1 = Some ([], True)"
  by (simp add: deleteConfigNode_def deleteConfigNode_rec.simps childrenOf_def
      exampleDb_def production_def eastCoast_def)

lemma find_sameNode:
  "list_all2 sameNode db nodes \<Longrightarrow> rel_option sameNode (getConfigNode db i) (GetNodeByID nodes i)"
  unfolding getConfigNode_def GetNodeByID_def
  by (induction rule: list_all2_induct) (auto simp: sameNode_def)

lemma walk_sameNode:
  assumes "wf (parentEdges db)" and "list_all2 sameNode db nodes"
    and "list_all2 sameNode path gpath"
  shows "rel_option (list_all2 sameNode)
           (getConfigNodePath_loop db path (Some i)) (GetNodePath_loop nodes gpath (Some i))"
  using assms(1,3)
proof (induction i arbitrary: path gpath rule: wf_induct_rule)
  case (less i)
  from find_sameNode[OF assms(2), of i]
  show ?case
  proof (cases rule: option.rel_cases)
    case None
    with less.prems show ?thesis
      by (simp add: getConfigNodePath_loop.simps GetNodePath_loop.simps)
  next
    case (Some n g)
    then have ng: "sameNode n g" "getConfigNode db i = Some n" "GetNodeByID nodes i = Some g"
      by simp_all
    from ng(1) less.prems have cons: "list_all2 sameNode (n # path) (g # gpath)" by simp
    from ng(1) have par: "ParentID g = parentId n" by (simp add: sameNode_def)
    show ?thesis
    proof (cases "parentId n")
      case None
      with ng par cons show ?thesis
        by (simp add: getConfigNodePath_loop.simps GetNodePath_loop.simps)
    next
      case (Some p)
      with getConfigNode_SomeD[OF ng(2)] have "(p, i) \<in> parentEdges db"
        unfolding parentEdges_def by auto
      from less.IH[OF this cons]
      have "rel_option (list_all2 sameNode)
           (getConfigNodePath_loop db (n # path) (Some p))
           (GetNodePath_loop nodes (g # gpath) (Some p))" .
      moreover have "getConfigNodePath_loop db path (Some i)
          = getConfigNodePath_loop db (n # path) (Some p)"
        using ng(2) Some by (subst getConfigNodePath_loop.simps) simp
      moreover have "GetNodePath_loop nodes gpath (Some i)
          = GetNodePath_loop nodes (g # gpath) (Some p)"
        using ng(3) Some par by (subst GetNodePath_loop.simps) simp
      ultimately show ?thesis by simp
    qed
  qed
qed

lemma applyProperties_map_of:
  "applyProperties unmarshal rows m
     = m ++ map_of (rev (map (\<lambda>p. (Key p, unmarshalValue unmarshal (Value p))) rows))"
proof (induction rows arbitrary: m)
  case Nil
  show ?case by (simp add: applyProperties_def)
next
  case (Cons r rows)
  have "applyProperties unmarshal (r # rows) m
      = applyProperties unmarshal rows (m(Key r \<mapsto> unmarshalValue unmarshal (Value r)))"
    by (simp add: applyProperties_def)
  also have "\<dots> = m(Key r \<mapsto> unmarshalValue unmarshal (Value r))
      ++ map_of (rev (map (\<lambda>p. (Key p, unmarshalValue unmarshal (Value p))) rows))"
    by (rule Cons.IH)
  finally show ?case
    by (auto simp: fun_eq_iff map_add_def split: option.splits)
qed

lemma distinct_keys_of_node:
  "distinct (map (\<lambda>p. (NodeID p, Key p)) props)
     \<Longrightarrow> distinct (map Key (filter (\<lambda>p. NodeID p = i) props))"
proof (induction props)
  case Nil
  show ?case by simp
next
  case (Cons a props)
  then have IH: "distinct (map Key (filter (\<lambda>p. NodeID p = i) props))" by simp
  show ?case
  proof (cases "NodeID a = i")
    case False
    with IH show ?thesis by simp
  next
    case True
    have "Key a \<notin> Key ` set (filter (\<lambda>p. NodeID p = i) props)"
    proof
      assume "Key a \<in> Key ` set (filter (\<lambda>p. NodeID p = i) props)"
      then obtain x where "x \<in> set props" "NodeID x = i" "Key x = Key a" by auto
      with True have "(NodeID a, Key a) \<in> (\<lambda>p. (NodeID p, Key p)) ` set props"
        by (intro image_eqI[where x = x]) simp_all
      with Cons.prems show False by simp
    qed
    with IH True show ?thesis by simp
  qed
qed

lemma applyProperties_rows:
  assumes "distinct (map (\<lambda>p. (NodeID p, Key p)) props)"
  shows "applyProperties unmarshal (GetPropertiesByNodeID props i) m
           = m ++ map_of (rowEntries unmarshal props i)"
proof -
  let ?rows = "filter (\<lambda>p. NodeID p = i) props"
  let ?f = "\<lambda>p. (Key p, unmarshalValue unmarshal (Value p))"
  have d: "distinct (map Key ?rows)" using assms by (rule distinct_keys_of_node)
  have "mset (map Key (sort_key Key ?rows)) = mset (map Key ?rows)" by simp
  then have ds: "distinct (map Key (sort_key Key ?rows))"
    using d mset_eq_imp_distinct_iff by blast
  have "map_of (rev (map ?f (sort_key Key ?rows))) = map_of (map ?f ?rows)"
  proof (subst map_of_inject_set)
    show "distinct (map fst (rev (map ?f (sort_key Key ?rows))))"
      using ds by (simp add: comp_def rev_map[symmetric] del: rev_map)
    show "distinct (map fst (map ?f ?rows))" using d by (simp add: comp_def)
    show "set (rev (map ?f (sort_key Key ?rows))) = set (map ?f ?rows)" by simp
  qed
  then show ?thesis
    by (simp add: applyProperties_map_of GetPropertiesByNodeID_def rowEntries_def)
qed

lemma dom_defaultEntries:
  "fst ` set (defaultEntries unmarshal props i) \<subseteq> fst ` set (rowEntries unmarshal props i)"
  unfolding defaultEntries_def rowEntries_def by (force split: option.splits)

lemma specStep_properties_only:
  assumes "asMap (properties n) = map_of rs" and "asMap (defaults n) = map_of ds"
    and "fst ` set ds \<subseteq> fst ` set rs"
  shows "specStep acc n = acc ++ map_of rs"
proof
  fix k
  show "specStep acc n k = (acc ++ map_of rs) k"
  proof (cases "map_of rs k")
    case None
    then have "k \<notin> fst ` set rs" by (simp add: map_of_eq_None_iff)
    with assms(3) have "map_of ds k = None" by (auto simp: map_of_eq_None_iff)
    with None assms(1,2) show ?thesis by (simp add: specStep_at map_add_def)
  next
    case (Some v)
    with assms(1) show ?thesis by (simp add: specStep_at map_add_def)
  qed
qed

lemma go_fold_is_specFold:
  assumes eq: "equivalentStores unmarshal db nodes props"
  shows "list_all2 sameNode path gpath \<Longrightarrow> set path \<subseteq> set db \<Longrightarrow>
     fold (\<lambda>node m. applyProperties unmarshal (GetPropertiesByNodeID props (ID node)) m) gpath acc
       = foldl specStep acc path"
proof (induction arbitrary: acc rule: list_all2_induct)
  case Nil
  show ?case by simp
next
  case (Cons n path g gpath)
  from Cons.prems have n: "n \<in> set db" by simp
  from eq have d: "distinct (map (\<lambda>p. (NodeID p, Key p)) props)"
    by (simp add: equivalentStores_def)
  from eq n have m: "asMap (properties n) = map_of (rowEntries unmarshal props (node_id n))"
    "asMap (defaults n) = map_of (defaultEntries unmarshal props (node_id n))"
    by (auto simp: equivalentStores_def)
  have step: "applyProperties unmarshal (GetPropertiesByNodeID props (ID g)) acc
      = specStep acc n"
    using Cons.hyps(1) applyProperties_rows[OF d]
      specStep_properties_only[OF m dom_defaultEntries]
    by (simp add: sameNode_def)
  from Cons.prems have "set path \<subseteq> set db" by simp
  from Cons.IH[OF this] step show ?case by simp
qed

lemma list_all2_last:
  "list_all2 P xs ys \<Longrightarrow> xs \<noteq> [] \<Longrightarrow> P (last xs) (last ys)"
  by (induction rule: list_all2_induct) auto

lemma twin_equivalent: "equivalentStores sampleUnmarshal twinDb goNodes goProps"
  by (simp add: equivalentStores_def sameNode_def rowEntries_def defaultEntries_def
      asMap_def unmarshalValue_def sampleUnmarshal_def twinDb_def twinProduction_def
      twinEastCoast_def goNodes_def goProduction_def goEastCoast_def goProps_def)

lemma twin_acyclic: "acyclic (parentEdges twinDb)"
  by (rule acyclic_parentEdges_increasing)
     (simp add: twinDb_def twinProduction_def twinEastCoast_def)

lemma twin_get2: "getConfigNode twinDb 2 = Some twinEastCoast"
  by (simp add: getConfigNode_def twinDb_def twinProduction_def twinEastCoast_def)

lemma twin_resolve:
  "resolveConfiguration twinDb 2
     = Some (fold resolveStep [twinProduction, twinEastCoast] Map.empty)"
  by (simp add: resolveConfiguration_def getConfigNodePath_def getConfigNodePath_loop.simps
      getConfigNode_def twinDb_def twinProduction_def twinEastCoast_def)

lemma go_path: "GetNodePath goNodes 2 = Some [goProduction, goEastCoast]"
  by (simp add: GetNodePath_def GetNodePath_loop.simps GetNodeByID_def goNodes_def
      goProduction_def goEastCoast_def)

lemma find_map_same_key:
  assumes "\<And>n. node_id (f n) = node_id n"
  shows "find (\<lambda>n. node_id n = i) (map f db) = map_option f (find (\<lambda>n. node_id n = i) db)"
  using assms by (induction db) auto

lemma applyUpdates_id: "node_id (applyUpdates u now n) = node_id n"
  by (simp add: applyUpdates_def)

text \<open>
  What an update of an existing node does: the row is found again under its id, the other
  rows are untouched, \<^verbatim>\<open>id\<close>, \<^verbatim>\<open>userId\<close> and \<^verbatim>\<open>createdAt\<close> are kept, \<^verbatim>\<open>updatedAt\<close> is
  set, and every other field is the supplied value when the payload holds one (a supplied
  map replaces the stored map whole) and the stored value otherwise.
\<close>

lemma update_frame:
  assumes "getConfigNode db i = Some n"
  shows "\<exists>n'. snd (updateConfigNode db i u now) = Some n' \<and>
           getConfigNode (fst (updateConfigNode db i u now)) i = Some n' \<and>
           filter (\<lambda>m. node_id m \<noteq> i) (fst (updateConfigNode db i u now))
             = filter (\<lambda>m. node_id m \<noteq> i) db \<and>
           node_id n' = node_id n \<and> userId n' = userId n \<and> createdAt n' = createdAt n \<and>
           updatedAt n' = now \<and>
           name n' = (case upd_name u of None \<Rightarrow> name n | Some v \<Rightarrow> v) \<and>
           properties n' = (case upd_properties u of None \<Rightarrow> properties n | Some v \<Rightarrow> v) \<and>
           defaults n' = (case upd_defaults u of None \<Rightarrow> defaults n | Some v \<Rightarrow> v) \<and>
           parentId n' = (case upd_parentId u of None \<Rightarrow> parentId n | Some v \<Rightarrow> v) \<and>
           nodeType n' = (case upd_nodeType u of None \<Rightarrow> nodeType n | Some v \<Rightarrow> v)"
proof -
  let ?f = "\<lambda>m. if node_id m = i then applyUpdates u now m else m"
  have key: "node_id (?f m) = node_id m" for m by (simp add: applyUpdates_id)
  have "find (\<lambda>m. node_id m = i) (map ?f db) = map_option ?f (find (\<lambda>m. node_id m = i) db)"
    using key by (rule find_map_same_key)
  with assms getConfigNode_SomeD[OF assms]
  have found: "find (\<lambda>m. node_id m = i) (map ?f db) = Some (applyUpdates u now n)"
    by (simp add: getConfigNode_def)
  have others: "filter (\<lambda>m. node_id m \<noteq> i) (map ?f db) = filter (\<lambda>m. node_id m \<noteq> i) db"
    by (induction db) (auto simp: applyUpdates_id)
  show ?thesis
    using found others
    by (simp add: updateConfigNode_def Let_def getConfigNode_def applyUpdates_def)
qed

lemma update_frame_example:
  "getConfigNode exampleDb 2 = Some eastCoast \<and>
   (\<exists>n'. snd (updateConfigNode exampleDb 2 renamePatch 7) = Some n' \<and>
      name n' = ''East'' \<and> properties n' = [] \<and> defaults n' = defaults eastCoast \<and>
      parentId n' = Some 1 \<and> nodeType n' = ''center'' \<and> userId n' = ''alice'')"
proof -
  from update_frame[OF exampleDb_get2, of renamePatch 7] obtain n' where
    "snd (updateConfigNode exampleDb 2 renamePatch 7) = Some n'"
    "userId n' = userId eastCoast"
    "name n' = (case upd_name renamePatch of None \<Rightarrow> name eastCoast | Some v \<Rightarrow> v)"
    "properties n' = (case upd_properties renamePatch of None \<Rightarrow> properties eastCoast | Some v \<Rightarrow> v)"
    "defaults n' = (case upd_defaults renamePatch of None \<Rightarrow> defaults eastCoast | Some v \<Rightarrow> v)"
    "parentId n' = (case upd_parentId renamePatch of None \<Rightarrow> parentId eastCoast | Some v \<Rightarrow> v)"
    "nodeType n' = (case upd_nodeType renamePatch of None \<Rightarrow> nodeType eastCoast | Some v \<Rightarrow> v)"
    by blast
  then show ?thesis
    using exampleDb_get2 by (simp add: renamePatch_def eastCoast_def)
qed

lemma int4Of_99: "int4Of 99 = Some 99"
  by (simp add: int4Of_def)

lemma int4Of_1: "int4Of 1 = Some 1"
  by (simp add: int4Of_def)

lemma int4Of_huge: "int4Of 2147483648 = None"
  by (simp add: int4Of_def)

lemma exampleDb_get99: "getConfigNode exampleDb 99 = None"
  by (simp add: getConfigNode_def exampleDb_def production_def eastCoast_def)

lemma exampleDb_get1: "getConfigNode exampleDb 1 = Some production"
  by (simp add: getConfigNode_def exampleDb_def production_def eastCoast_def)

lemma foldl_specStep_provenance:
  "foldl specStep acc path k = Some v \<Longrightarrow>
     acc k = Some v \<or>
     (\<exists>x \<in> set path. asMap (properties x) k = Some v \<or> asMap (defaults x) k = Some v)"
proof (induction path arbitrary: acc)
  case Nil
  then show ?case by simp
next
  case (Cons x path)
  from Cons.prems have "foldl specStep (specStep acc x) path k = Some v" by simp
  from Cons.IH[OF this] show ?case
  proof
    assume "specStep acc x k = Some v"
    then have "acc k = Some v \<or> asMap (properties x) k = Some v \<or> asMap (defaults x) k = Some v"
      by (auto simp: specStep_at split: option.splits)
    then show ?thesis by auto
  next
    assume "\<exists>y \<in> set path. asMap (properties y) k = Some v \<or> asMap (defaults y) k = Some v"
    then show ?thesis by auto
  qed
qed

lemma specResolve_provenance:
  "specResolve path k = Some v \<Longrightarrow>
     \<exists>x \<in> set path. asMap (properties x) k = Some v \<or> asMap (defaults x) k = Some v"
  using foldl_specStep_provenance[of Map.empty path k v] by (simp add: specResolve_def)

lemma createConfigNode_InrD:
  assumes "createConfigNode stored db newId now node = Inr (db', created)"
  shows "db' = db @ [created] \<and> node_id created = newId \<and> name created = ins_name node \<and>
         properties created = (case ins_properties node of None \<Rightarrow> [] | Some p \<Rightarrow> stored p) \<and>
         defaults created = (case ins_defaults node of None \<Rightarrow> [] | Some d \<Rightarrow> stored d)"
  using assms by (auto simp: createConfigNode_def Let_def split: sum.splits)

lemma create_named:
  "createConfigNode storedAsSupplied exampleDb 3 7 namedInsert
     = Inr (exampleDb @ [westCoastNamed], westCoastNamed)"
  by (simp add: createConfigNode_def parentColumn_def int4Of_1 exampleDb_get1 Let_def
      namedInsert_def storedAsSupplied_def westCoastNamed_def)

lemma create_region:
  "createConfigNode storedAsSupplied exampleDb 3 7 regionInsert
     = Inr (exampleDb @ [westCoast], westCoast)"
  by (simp add: createConfigNode_def parentColumn_def int4Of_1 exampleDb_get1 Let_def
      regionInsert_def storedAsSupplied_def westCoast_def)

lemma named_path:
  "getConfigNodePath (exampleDb @ [westCoastNamed]) 3 = Some [production, westCoastNamed]"
  by (simp add: getConfigNodePath_def getConfigNodePath_loop.simps getConfigNode_def
      exampleDb_def production_def eastCoast_def westCoastNamed_def)

lemma region_acyclic: "acyclic (parentEdges (exampleDb @ [westCoast]))"
  by (rule acyclic_parentEdges_increasing)
     (simp add: exampleDb_def production_def eastCoast_def westCoast_def)

section \<open>The claims\<close>

subsection \<open>C1: the resolved configuration as a fold over the path\<close>

text \<open>
  C1, as stated, at the root \<open>Production\<close> alone: the fold of defaults and properties
  over the path has no entry for \<^verbatim>\<open>$NAME\<close>, the resolved configuration has one, so the
  two differ.
\<close>

theorem C1_counterexample:
  "getConfigNodePath rootOnlyDb 1 = Some [production] \<and>
   specResolve [production] ''$NAME'' = None \<and>
   resolveConfiguration rootOnlyDb 1 \<noteq> Some (specResolve [production])"
proof -
  have a: "fold resolveStep [production] Map.empty ''$NAME'' = Some (JString ''Production'')"
    by (simp add: resolveStep_def production_def)
  have b: "specResolve [production] ''$NAME'' = None"
    by (simp add: specResolve_def specStep_def asMap_def production_def)
  from a b have "fold resolveStep [production] Map.empty ''$NAME''
      \<noteq> specResolve [production] ''$NAME''"
    by simp
  then have "fold resolveStep [production] Map.empty \<noteq> specResolve [production]"
    by (rule contrapos_nn) simp
  with b show ?thesis
    by (simp add: resolveConfiguration_def rootOnlyDb_path)
qed

text \<open>
  C1, amended: for every node \<open>n\<close> of a forest table, the resolved configuration of \<open>n\<close>
  is the fold over the path of \<open>n\<close>, root first, that merges each node's defaults and
  then its properties, every merged key overwriting, with the key \<^verbatim>\<open>$NAME\<close> then bound to
  the name of \<open>n\<close>. So the value of a key other than \<^verbatim>\<open>$NAME\<close> is decided by the deepest
  node of the path that defines it, and within that node by its properties before its
  defaults.
\<close>

theorem C1_resolve_fold:
  assumes "acyclic (parentEdges db)" and "getConfigNode db n = Some node"
  shows "\<exists>path r. getConfigNodePath db n = Some path \<and>
           resolveConfiguration db n = Some r \<and>
           r = (specResolve path)(''$NAME'' \<mapsto> JString (name node)) \<and>
           (\<forall>xs a ys k. path = xs @ a # ys \<longrightarrow> k \<noteq> ''$NAME'' \<longrightarrow>
              (\<forall>y \<in> set ys. k \<notin> keysOf y) \<longrightarrow>
              r k = (case asMap (properties a) k of
                       Some v \<Rightarrow> Some v
                     | None \<Rightarrow> (case asMap (defaults a) k of
                         Some v \<Rightarrow> Some v
                       | None \<Rightarrow> specResolve xs k)))"
proof -
  from path_of_existing[OF assms] obtain path where
    p: "getConfigNodePath db n = Some path" "path \<noteq> []" "last path = node" by blast
  let ?r = "(specResolve path)(''$NAME'' \<mapsto> JString (name node))"
  have r: "resolveConfiguration db n = Some ?r"
    using p by (simp add: resolveConfiguration_def fold_resolveStep_eq)
  have "?r k = (case asMap (properties a) k of
                  Some v \<Rightarrow> Some v
                | None \<Rightarrow> (case asMap (defaults a) k of
                    Some v \<Rightarrow> Some v
                  | None \<Rightarrow> specResolve xs k))"
    if "path = xs @ a # ys" "k \<noteq> ''$NAME''" "\<forall>y \<in> set ys. k \<notin> keysOf y" for xs a ys k
    using that by (simp add: specResolve_deeper_wins)
  with p(1) r show ?thesis by blast
qed

theorem C1_resolve_fold_witness:
  "acyclic (parentEdges exampleDb) \<and> getConfigNode exampleDb 2 = Some eastCoast \<and>
   (\<exists>path r. getConfigNodePath exampleDb 2 = Some path \<and>
      resolveConfiguration exampleDb 2 = Some r \<and>
      r = (specResolve path)(''$NAME'' \<mapsto> JString (name eastCoast)) \<and>
      (\<forall>xs a ys k. path = xs @ a # ys \<longrightarrow> k \<noteq> ''$NAME'' \<longrightarrow>
         (\<forall>y \<in> set ys. k \<notin> keysOf y) \<longrightarrow>
         r k = (case asMap (properties a) k of
                  Some v \<Rightarrow> Some v
                | None \<Rightarrow> (case asMap (defaults a) k of
                    Some v \<Rightarrow> Some v
                  | None \<Rightarrow> specResolve xs k))))"
  by (rule conjI[OF exampleDb_acyclic
        conjI[OF exampleDb_get2 C1_resolve_fold[OF exampleDb_acyclic exampleDb_get2]]])

subsection \<open>C2: the shape of the path\<close>

text \<open>
  C2: for every node \<open>n\<close> of a forest table, \<^verbatim>\<open>getConfigNodePath\<close> returns a path that is
  not empty, ends with the record of \<open>n\<close>, holds records of the table only, and in which
  each element names its predecessor as its parent; its first element has no parent, or
  a parent that is missing from the table (the truncation boundary).
\<close>

theorem C2_path_shape:
  assumes "acyclic (parentEdges db)" and "getConfigNode db n = Some node"
  shows "\<exists>path. getConfigNodePath db n = Some path \<and> path \<noteq> [] \<and> last path = node \<and>
           linked path \<and> (\<forall>x \<in> set path. getConfigNode db (node_id x) = Some x) \<and>
           effectiveRoot db (hd path)"
  using assms by (rule path_of_existing)

theorem C2_path_shape_witness:
  "acyclic (parentEdges exampleDb) \<and> getConfigNode exampleDb 2 = Some eastCoast \<and>
   getConfigNodePath exampleDb 2 = Some [production, eastCoast] \<and>
   (\<exists>path. getConfigNodePath exampleDb 2 = Some path \<and> path \<noteq> [] \<and> last path = eastCoast \<and>
      linked path \<and> (\<forall>x \<in> set path. getConfigNode exampleDb (node_id x) = Some x) \<and>
      effectiveRoot exampleDb (hd path))"
  by (rule conjI[OF exampleDb_acyclic conjI[OF exampleDb_get2 conjI[OF exampleDb_path
        C2_path_shape[OF exampleDb_acyclic exampleDb_get2]]]])

subsection \<open>C3: cascading delete\<close>

text \<open>
  C3: on a forest table, \<^verbatim>\<open>deleteConfigNode(p)\<close> returns, and it reports a deleted row
  exactly when \<open>p\<close> existed (the delete route of the owner then answers 204). Every
  node \<open>d\<close> whose path held \<open>p\<close> is gone afterwards:
  the routes that return the path and the resolved configuration of \<open>d\<close> answer 404.
  No remaining row names as its parent a node that the delete removed.
\<close>

theorem C3_cascading_delete:
  assumes "acyclic (parentEdges db)"
  shows "\<exists>db' deleted. deleteConfigNode db p = Some (db', deleted) \<and>
           (deleted \<longleftrightarrow> getConfigNode db p \<noteq> None) \<and>
           (\<forall>node. getConfigNode db p = Some node \<longrightarrow> userId node = caller \<longrightarrow>
              deleteRoute db caller p = Some (db', NoBody 204)) \<and>
           (\<forall>d path. getConfigNodePath db d = Some path \<longrightarrow> p \<in> node_id ` set path \<longrightarrow>
              getConfigNode db' d = None \<and>
              pathRoute db' caller d = Some (Message 404 ''Config node not found'') \<and>
              resolveRoute db' caller d = Some (Message 404 ''Config node not found'')) \<and>
           (\<forall>n \<in> set db'. \<forall>q. parentId n = Some q \<longrightarrow> q \<in> node_id ` set db \<longrightarrow>
              q \<in> node_id ` set db')"
proof -
  let ?D = "subtreeIds db p"
  let ?db' = "removeIds ?D db"
  have del: "deleteConfigNode db p = Some (?db', p \<in> node_id ` set db)"
    using assms by (rule delete_spec)
  have route: "deleteRoute db caller p = Some (?db', NoBody 204)"
    if "getConfigNode db p = Some node" "userId node = caller" for node
    using that del getConfigNode_None_iff[of db p] by (simp add: deleteRoute_def)
  have gone: "getConfigNode ?db' d = None \<and>
      pathRoute ?db' caller d = Some (Message 404 ''Config node not found'') \<and>
      resolveRoute ?db' caller d = Some (Message 404 ''Config node not found'')"
    if "getConfigNodePath db d = Some path" "p \<in> node_id ` set path" for d path
  proof -
    from path_ids_in_subtree[OF assms that] have "d \<in> ?D" .
    then have "getConfigNode ?db' d = None"
      by (auto simp: getConfigNode_None_iff removeIds_def)
    then show ?thesis by (simp add: pathRoute_def resolveRoute_def)
  qed
  have noorphan: "q \<in> node_id ` set ?db'"
    if "n \<in> set ?db'" "parentId n = Some q" "q \<in> node_id ` set db" for n q
  proof (rule ccontr)
    assume "q \<notin> node_id ` set ?db'"
    with that(3) have "q \<in> ?D" by (auto simp: removeIds_def)
    moreover from that(1,2) have "(q, node_id n) \<in> parentEdges db"
      unfolding parentEdges_def removeIds_def by auto
    ultimately have "node_id n \<in> ?D" by (rule subtreeIds_closed)
    with that(1) show False by (simp add: removeIds_def)
  qed
  have "(p \<in> node_id ` set db) \<longleftrightarrow> getConfigNode db p \<noteq> None"
    by (simp add: getConfigNode_None_iff)
  with del route gone noorphan show ?thesis by blast
qed

theorem C3_cascading_delete_witness:
  "acyclic (parentEdges exampleDb) \<and>
   getConfigNodePath exampleDb 2 = Some [production, eastCoast] \<and>
   1 \<in> node_id ` set [production, eastCoast] \<and>
   deleteConfigNode exampleDb 1 = Some ([], True) \<and>
   getConfigNode [] 2 = None \<and>
   pathRoute [] ''alice'' 2 = Some (Message 404 ''Config node not found'') \<and>
   resolveRoute [] ''alice'' 2 = Some (Message 404 ''Config node not found'')"
proof -
  have m: "1 \<in> node_id ` set [production, eastCoast]" by (simp add: production_def)
  from C3_cascading_delete[OF exampleDb_acyclic, of 1 "''alice''"]
  have "getConfigNode [] 2 = None \<and>
      pathRoute [] ''alice'' 2 = Some (Message 404 ''Config node not found'') \<and>
      resolveRoute [] ''alice'' 2 = Some (Message 404 ''Config node not found'')"
    using exampleDb_delete_root exampleDb_path m by auto
  with exampleDb_acyclic exampleDb_path m exampleDb_delete_root show ?thesis by simp
qed

subsection \<open>C4: termination of the path walk\<close>

text \<open>
  C4, as stated, on the example table after the root was given its own child as parent:
  the walk from node 1 never returns, so it neither stops at a bound nor reports a
  conflict.
\<close>

theorem C4_counterexample:
  "map_option parentId (getConfigNode cyclicDb 1) = Some (Some 2) \<and>
   map_option parentId (getConfigNode cyclicDb 2) = Some (Some 1) \<and>
   getConfigNodePath cyclicDb 1 = None"
proof -
  have "(2, 1) \<in> walkEdges cyclicDb"
    unfolding walkEdges_def using cyclicDb_get1 by simp
  moreover have "(1, 2) \<in> walkEdges cyclicDb"
    unfolding walkEdges_def using cyclicDb_get2 by (simp add: eastCoast_def)
  ultimately have "(1, 1) \<in> (walkEdges cyclicDb)\<^sup>+" by (meson trancl.intros)
  then have "entersCycle cyclicDb 1" unfolding entersCycle_def by blast
  then have "getConfigNodePath cyclicDb 1 = None"
    using loop_diverges[of cyclicDb "[]" "Some 1"]
    by (cases "getConfigNodePath cyclicDb 1") (auto simp: getConfigNodePath_def)
  then show ?thesis
    by (simp add: cyclicDb_get1 cyclicDb_get2 eastCoast_def)
qed

text \<open>
  C4, amended: the path walk has no iteration bound and no conflict error. It returns
  exactly when the chain of parent links followed from the start never enters a cycle;
  on a table where that chain enters a cycle it does not terminate.
\<close>

theorem C4_walk_returns_iff:
  "getConfigNodePath db i = None \<longleftrightarrow> entersCycle db i"
proof
  assume "getConfigNodePath db i = None"
  then show "entersCycle db i"
    using loop_terminates[of db i "[]"] by (auto simp: getConfigNodePath_def)
next
  assume "entersCycle db i"
  then show "getConfigNodePath db i = None"
    using loop_diverges[of db "[]" "Some i"]
    by (cases "getConfigNodePath db i") (auto simp: getConfigNodePath_def)
qed

subsection \<open>C5: creating under a missing or foreign parent\<close>

text \<open>
  C5, as stated, on the example table: a create under the missing parent 99 is answered
  with status 400, not 404, and a create by another caller under node 1 is answered with
  status 400, not 403.
\<close>

theorem C5_counterexample:
  "getConfigNode exampleDb 99 = None \<and>
   createRoute storedAsSupplied exampleDb 3 5 ''alice'' orphanBody
     = (exampleDb, Message 400 ''Invalid parent node'') \<and>
   status (snd (createRoute storedAsSupplied exampleDb 3 5 ''alice'' orphanBody)) \<noteq> 404 \<and>
   map_option userId (getConfigNode exampleDb 1) = Some ''alice'' \<and>
   createRoute storedAsSupplied exampleDb 3 5 ''bob'' childBody
     = (exampleDb, Message 400 ''Invalid parent node'') \<and>
   status (snd (createRoute storedAsSupplied exampleDb 3 5 ''bob'' childBody)) \<noteq> 403"
proof -
  have a: "createRoute storedAsSupplied exampleDb 3 5 ''alice'' orphanBody
      = (exampleDb, Message 400 ''Invalid parent node'')"
    by (simp add: createRoute_def parseInsert_def invalidParent_def getConfigNode_number_def
        int4Of_99 exampleDb_get99 orphanBody_def)
  have b: "createRoute storedAsSupplied exampleDb 3 5 ''bob'' childBody
      = (exampleDb, Message 400 ''Invalid parent node'')"
    by (simp add: createRoute_def parseInsert_def invalidParent_def getConfigNode_number_def
        int4Of_1 exampleDb_get1 childBody_def production_def)
  show ?thesis
    by (simp add: a b exampleDb_get99 exampleDb_get1 production_def)
qed

text \<open>
  C5, amended: for every create call that supplies a non-zero \<^verbatim>\<open>parentId\<close>, if no node
  with that id exists, or the parent's owner differs from the caller, the table is
  unchanged: no node is created. When the \<^verbatim>\<open>parentId\<close> is an integer of the id column the
  call fails with status 400, with the message \<^verbatim>\<open>Invalid parent node\<close> when the body
  passes validation. (A \<^verbatim>\<open>parentId\<close> that is not such an integer makes the lookup throw,
  and the handler answers 500.)
\<close>

theorem C5_invalid_parent_rejected:
  assumes "body_parentId body = Some x" and "x \<noteq> 0"
    and "case int4Of x of
           None \<Rightarrow> True
         | Some pid \<Rightarrow> getConfigNode db pid = None \<or>
             (\<exists>parent. getConfigNode db pid = Some parent \<and> userId parent \<noteq> caller)"
  shows "fst (createRoute stored db newId now caller body) = db \<and>
         snd (createRoute stored db newId now caller body) =
           (if parseInsert caller body = None then Message 400 ''Validation error''
            else if int4Of x = None then Message 500 ''Failed to create config node''
            else Message 400 ''Invalid parent node'')"
proof (cases "parseInsert caller body")
  case None
  then show ?thesis by (simp add: createRoute_def)
next
  case (Some nodeData)
  then have p: "ins_parentId nodeData = Some x"
    using assms(1) by (auto simp: parseInsert_def split: option.splits)
  show ?thesis
  proof (cases "int4Of x")
    case None
    with p assms(2) have "invalidParent db caller nodeData = Inl InvalidInteger"
      by (simp add: invalidParent_def getConfigNode_number_def)
    with Some None show ?thesis by (simp add: createRoute_def)
  next
    case (Some pid)
    with assms(3) have "getConfigNode db pid = None \<or>
        (\<exists>parent. getConfigNode db pid = Some parent \<and> userId parent \<noteq> caller)"
      by simp
    with p assms(2) Some have "invalidParent db caller nodeData = Inr True"
      by (auto simp: invalidParent_def getConfigNode_number_def)
    with \<open>parseInsert caller body = Some nodeData\<close> Some show ?thesis
      by (simp add: createRoute_def)
  qed
qed

theorem C5_invalid_parent_rejected_witness:
  "body_parentId orphanBody = Some 99 \<and> (99::real) \<noteq> 0 \<and> int4Of 99 = Some 99 \<and>
   getConfigNode exampleDb 99 = None \<and>
   createRoute storedAsSupplied exampleDb 3 5 ''alice'' orphanBody
     = (exampleDb, Message 400 ''Invalid parent node'') \<and>
   body_parentId hugeParentBody = Some 2147483648 \<and> int4Of 2147483648 = None \<and>
   createRoute storedAsSupplied exampleDb 3 5 ''alice'' hugeParentBody
     = (exampleDb, Message 500 ''Failed to create config node'')"
proof -
  have a: "body_parentId orphanBody = Some 99" by (simp add: orphanBody_def)
  have b: "(99::real) \<noteq> 0" by simp
  have c: "case int4Of 99 of
             None \<Rightarrow> True
           | Some pid \<Rightarrow> getConfigNode exampleDb pid = None \<or>
               (\<exists>parent. getConfigNode exampleDb pid = Some parent \<and> userId parent \<noteq> ''alice'')"
    by (simp add: int4Of_99 exampleDb_get99)
  have pa: "parseInsert ''alice'' orphanBody \<noteq> None"
    by (simp add: parseInsert_def orphanBody_def)
  have a': "body_parentId hugeParentBody = Some 2147483648" by (simp add: hugeParentBody_def)
  have b': "(2147483648::real) \<noteq> 0" by simp
  have c': "case int4Of 2147483648 of
             None \<Rightarrow> True
           | Some pid \<Rightarrow> getConfigNode exampleDb pid = None \<or>
               (\<exists>parent. getConfigNode exampleDb pid = Some parent \<and> userId parent \<noteq> ''alice'')"
    by (simp add: int4Of_huge)
  have pa': "parseInsert ''alice'' hugeParentBody \<noteq> None"
    by (simp add: parseInsert_def hugeParentBody_def)
  from C5_invalid_parent_rejected[OF a b c, of storedAsSupplied 3 5] pa
  have r: "createRoute storedAsSupplied exampleDb 3 5 ''alice'' orphanBody
      = (exampleDb, Message 400 ''Invalid parent node'')"
    by (simp add: int4Of_99 prod_eq_iff)
  from C5_invalid_parent_rejected[OF a' b' c', of storedAsSupplied 3 5] pa'
  have r': "createRoute storedAsSupplied exampleDb 3 5 ''alice'' hugeParentBody
      = (exampleDb, Message 500 ''Failed to create config node'')"
    by (simp add: int4Of_huge prod_eq_iff)
  show ?thesis
    using a b a' r r' by (simp add: int4Of_99 int4Of_huge exampleDb_get99)
qed

subsection \<open>C6: what an update changes\<close>

text \<open>
  C6 at the update \<^verbatim>\<open>{ nodeType: "territory", parentId: null }\<close> of node 2 by its owner:
  the route answers 200 and the stored node has a new type and no parent, so
  \<^verbatim>\<open>nodeType\<close> and \<^verbatim>\<open>parentId\<close> are not immutable.
\<close>

theorem C6_update_changes_type_and_parent:
  "nodeType eastCoast = ''center'' \<and> parentId eastCoast = Some 1 \<and>
   updateRoute exampleDb 9 ''alice'' 2 retypePatch =
     ([production, eastCoast\<lparr>parentId := None, nodeType := ''territory'', updatedAt := 9\<rparr>],
      Json 200 (eastCoast\<lparr>parentId := None, nodeType := ''territory'', updatedAt := 9\<rparr>))"
  by (simp add: updateRoute_def updateConfigNode_def applyUpdates_def getConfigNode_def
      retypePatch_def exampleDb_def production_def eastCoast_def)

subsection \<open>C7: the round trip of a stored value\<close>

text \<open>
  C7, as stated, at a node created with the number 5 under the key \<^verbatim>\<open>$NAME\<close>: the
  resolved configuration holds the node's name, a string, under that key.
\<close>

theorem C7_counterexample:
  "(case createConfigNode storedAsSupplied exampleDb 3 7 namedInsert of
      Inl e \<Rightarrow> False
    | Inr (db', created) \<Rightarrow>
        asMap (properties created) ''$NAME'' = Some (JNumber 5) \<and>
        (case resolveConfiguration db' 3 of
           None \<Rightarrow> False
         | Some r \<Rightarrow> r ''$NAME'' = Some (JString ''WestCoast'') \<and>
             dataTypeOf (the (r ''$NAME'')) = DataTypeString)) \<and>
   dataTypeOf (JNumber 5) = DataTypeNumber"
proof -
  have n: "fold resolveStep [production, westCoastNamed] Map.empty ''$NAME''
      = Some (JString ''WestCoast'')"
    by (simp add: resolveStep_def westCoastNamed_def)
  have m: "asMap (properties westCoastNamed) ''$NAME'' = Some (JNumber 5)"
    by (simp add: asMap_def westCoastNamed_def)
  have r: "resolveConfiguration (exampleDb @ [westCoastNamed]) 3
      = Some (fold resolveStep [production, westCoastNamed] Map.empty)"
    by (simp add: resolveConfiguration_def named_path)
  show ?thesis
    unfolding create_named using n m by (simp add: r)
qed

text \<open>
  C7, amended: a node is created with a fresh id, the table being a forest afterwards.
  The created row holds the supplied maps as the column stores them. Every value that
  row holds under a key other than \<^verbatim>\<open>$NAME\<close> comes back from the resolution of the node
  unchanged, tag and value: a value of its properties always, a value of its defaults when
  its properties do not hold the key. The resolved configuration is the fold of the
  stored maps along the path with \<^verbatim>\<open>$NAME\<close> added, so every value in it under another key
  is, unchanged, a value that a node of the path stores under that key: no merge step
  coerces a value.
\<close>

theorem C7_round_trip:
  assumes "createConfigNode stored db newId now node = Inr (db', created)"
    and "acyclic (parentEdges db')"
    and "newId \<notin> node_id ` set db"
  shows "properties created = (case ins_properties node of None \<Rightarrow> [] | Some p \<Rightarrow> stored p) \<and>
         defaults created = (case ins_defaults node of None \<Rightarrow> [] | Some d \<Rightarrow> stored d) \<and>
         (\<exists>path r. getConfigNodePath db' newId = Some path \<and> last path = created \<and>
            resolveConfiguration db' newId = Some r \<and>
            r = (specResolve path)(''$NAME'' \<mapsto> JString (name created)) \<and>
            (\<forall>k v. k \<noteq> ''$NAME'' \<longrightarrow> asMap (properties created) k = Some v \<longrightarrow>
               r k = Some v \<and> dataTypeOf (the (r k)) = dataTypeOf v) \<and>
            (\<forall>k v. k \<noteq> ''$NAME'' \<longrightarrow> asMap (properties created) k = None \<longrightarrow>
               asMap (defaults created) k = Some v \<longrightarrow>
               r k = Some v \<and> dataTypeOf (the (r k)) = dataTypeOf v) \<and>
            (\<forall>k v. k \<noteq> ''$NAME'' \<longrightarrow> r k = Some v \<longrightarrow>
               (\<exists>x \<in> set path. asMap (properties x) k = Some v \<or>
                  asMap (defaults x) k = Some v)))"
proof -
  from createConfigNode_InrD[OF assms(1)] have db': "db' = db @ [created]"
    and cid: "node_id created = newId"
    and pr: "properties created = (case ins_properties node of None \<Rightarrow> [] | Some p \<Rightarrow> stored p)"
    and df: "defaults created = (case ins_defaults node of None \<Rightarrow> [] | Some d \<Rightarrow> stored d)"
    by simp_all
  from assms(3) cid have g: "getConfigNode db' newId = Some created"
    unfolding db' by (rule getConfigNode_append_fresh)
  from path_of_existing[OF assms(2) g] obtain path where
    p: "getConfigNodePath db' newId = Some path" "path \<noteq> []" "last path = created" by blast
  then have sp: "path = butlast path @ created # []"
    by (metis append_butlast_last_id)
  let ?r = "(specResolve path)(''$NAME'' \<mapsto> JString (name created))"
  have r: "resolveConfiguration db' newId = Some ?r"
    using p by (simp add: resolveConfiguration_def fold_resolveStep_eq)
  have at: "specResolve path k =
      (case asMap (properties created) k of
         Some v \<Rightarrow> Some v
       | None \<Rightarrow> (case asMap (defaults created) k of
           Some v \<Rightarrow> Some v
         | None \<Rightarrow> specResolve (butlast path) k))" for k
    by (subst sp, rule specResolve_deeper_wins) simp
  have own: "?r k = Some v \<and> dataTypeOf (the (?r k)) = dataTypeOf v"
    if "k \<noteq> ''$NAME''" "asMap (properties created) k = Some v" for k v
    using that by (simp add: at)
  have dfl: "?r k = Some v \<and> dataTypeOf (the (?r k)) = dataTypeOf v"
    if "k \<noteq> ''$NAME''" "asMap (properties created) k = None"
      "asMap (defaults created) k = Some v" for k v
    using that by (simp add: at)
  have prov: "\<exists>x \<in> set path. asMap (properties x) k = Some v \<or> asMap (defaults x) k = Some v"
    if "k \<noteq> ''$NAME''" "?r k = Some v" for k v
    using that by (intro specResolve_provenance) simp
  have "\<exists>path r. getConfigNodePath db' newId = Some path \<and> last path = created \<and>
       resolveConfiguration db' newId = Some r \<and>
       r = (specResolve path)(''$NAME'' \<mapsto> JString (name created)) \<and>
       (\<forall>k v. k \<noteq> ''$NAME'' \<longrightarrow> asMap (properties created) k = Some v \<longrightarrow>
          r k = Some v \<and> dataTypeOf (the (r k)) = dataTypeOf v) \<and>
       (\<forall>k v. k \<noteq> ''$NAME'' \<longrightarrow> asMap (properties created) k = None \<longrightarrow>
          asMap (defaults created) k = Some v \<longrightarrow>
          r k = Some v \<and> dataTypeOf (the (r k)) = dataTypeOf v) \<and>
       (\<forall>k v. k \<noteq> ''$NAME'' \<longrightarrow> r k = Some v \<longrightarrow>
          (\<exists>x \<in> set path. asMap (properties x) k = Some v \<or>
             asMap (defaults x) k = Some v))"
  proof (intro exI[of _ path] exI[of _ ?r] conjI allI impI)
    show "getConfigNodePath db' newId = Some path" by (rule p(1))
    show "last path = created" by (rule p(3))
    show "resolveConfiguration db' newId = Some ?r" by (rule r)
    show "?r = (specResolve path)(''$NAME'' \<mapsto> JString (name created))" by (rule refl)
  next
    fix k v assume "k \<noteq> ''$NAME''" "asMap (properties created) k = Some v"
    then show "?r k = Some v" "dataTypeOf (the (?r k)) = dataTypeOf v"
      using own by blast+
  next
    fix k v assume "k \<noteq> ''$NAME''" "asMap (properties created) k = None"
      "asMap (defaults created) k = Some v"
    then show "?r k = Some v" "dataTypeOf (the (?r k)) = dataTypeOf v"
      using dfl by blast+
  next
    fix k v assume "k \<noteq> ''$NAME''" "?r k = Some v"
    then show "\<exists>x \<in> set path. asMap (properties x) k = Some v \<or>
        asMap (defaults x) k = Some v"
      by (rule prov)
  qed
  with pr df show ?thesis by simp
qed

theorem C7_round_trip_witness:
  "createConfigNode storedAsSupplied exampleDb 3 7 regionInsert
     = Inr (exampleDb @ [westCoast], westCoast) \<and>
   acyclic (parentEdges (exampleDb @ [westCoast])) \<and> 3 \<notin> node_id ` set exampleDb \<and>
   asMap (properties westCoast) ''region'' = Some (JString ''us-west-2'') \<and>
   asMap (properties westCoast) ''api_timeout'' = None \<and>
   asMap (defaults westCoast) ''api_timeout'' = Some (JNumber 30) \<and>
   (\<exists>r. resolveConfiguration (exampleDb @ [westCoast]) 3 = Some r \<and>
      r ''region'' = Some (JString ''us-west-2'') \<and>
      dataTypeOf (the (r ''region'')) = DataTypeString \<and>
      r ''api_timeout'' = Some (JNumber 30) \<and>
      dataTypeOf (the (r ''api_timeout'')) = DataTypeNumber)"
proof -
  have b: "3 \<notin> node_id ` set exampleDb"
    by (simp add: exampleDb_def production_def eastCoast_def)
  have c: "asMap (properties westCoast) ''region'' = Some (JString ''us-west-2'')"
    "asMap (properties westCoast) ''api_timeout'' = None"
    "asMap (defaults westCoast) ''api_timeout'' = Some (JNumber 30)"
    by (simp_all add: asMap_def westCoast_def)
  note t = C7_round_trip[OF create_region region_acyclic b, THEN conjunct2, THEN conjunct2]
  have e: "\<exists>r. resolveConfiguration (exampleDb @ [westCoast]) 3 = Some r \<and>
      r ''region'' = Some (JString ''us-west-2'') \<and>
      dataTypeOf (the (r ''region'')) = DataTypeString \<and>
      r ''api_timeout'' = Some (JNumber 30) \<and>
      dataTypeOf (the (r ''api_timeout'')) = DataTypeNumber"
    using t
  proof (elim exE conjE)
    fix path r
    assume r: "resolveConfiguration (exampleDb @ [westCoast]) 3 = Some r"
      and k: "\<forall>k v. k \<noteq> ''$NAME'' \<longrightarrow> asMap (properties westCoast) k = Some v \<longrightarrow>
               r k = Some v \<and> dataTypeOf (the (r k)) = dataTypeOf v"
      and d: "\<forall>k v. k \<noteq> ''$NAME'' \<longrightarrow> asMap (properties westCoast) k = None \<longrightarrow>
               asMap (defaults westCoast) k = Some v \<longrightarrow>
               r k = Some v \<and> dataTypeOf (the (r k)) = dataTypeOf v"
    from k[rule_format, of "''region''" "JString ''us-west-2''"] c(1)
    have k1: "r ''region'' = Some (JString ''us-west-2'') \<and>
        dataTypeOf (the (r ''region'')) = DataTypeString"
      by simp
    from d[rule_format, of "''api_timeout''" "JNumber 30"] c(2,3)
    have k2: "r ''api_timeout'' = Some (JNumber 30) \<and>
        dataTypeOf (the (r ''api_timeout'')) = DataTypeNumber"
      by simp
    from r k1 k2 show ?thesis by (intro exI[of _ r]) simp
  qed
  show ?thesis
    by (intro conjI create_region region_acyclic b c e)
qed

subsection \<open>C8: where the keys of the resolved configuration come from\<close>

text \<open>
  C8, as stated, at the root \<open>Production\<close> alone: the resolved configuration has the key
  \<^verbatim>\<open>$NAME\<close>, which neither the defaults nor the properties of the only node of the path
  hold.
\<close>

theorem C8_counterexample:
  "getConfigNodePath rootOnlyDb 1 = Some [production] \<and>
   (case resolveConfiguration rootOnlyDb 1 of
      None \<Rightarrow> False
    | Some r \<Rightarrow> r ''$NAME'' = Some (JString ''Production'')) \<and>
   ''$NAME'' \<notin> keysOf production"
  by (simp add: resolveConfiguration_def rootOnlyDb_path resolveStep_def keysOf_def
      production_def)

text \<open>
  C8, amended: for every node \<open>n\<close> of a forest table, the keys of the resolved
  configuration of \<open>n\<close> are \<^verbatim>\<open>$NAME\<close>, which the resolver adds, and the keys of the
  defaults and properties of the nodes on the path of \<open>n\<close>; no other key is present.
\<close>

theorem C8_keys_from_path:
  assumes "acyclic (parentEdges db)" and "getConfigNode db n = Some node"
  shows "\<exists>path r. getConfigNodePath db n = Some path \<and>
           resolveConfiguration db n = Some r \<and>
           dom r = insert ''$NAME'' (\<Union>x \<in> set path. keysOf x)"
proof -
  from path_of_existing[OF assms] obtain path where
    p: "getConfigNodePath db n = Some path" "path \<noteq> []" by blast
  then have "resolveConfiguration db n =
      Some ((specResolve path)(''$NAME'' \<mapsto> JString (name (last path))))"
    by (simp add: resolveConfiguration_def fold_resolveStep_eq)
  moreover have "dom ((specResolve path)(''$NAME'' \<mapsto> JString (name (last path)))) =
      insert ''$NAME'' (\<Union>x \<in> set path. keysOf x)"
    by (simp add: dom_specResolve)
  ultimately show ?thesis using p(1) by blast
qed

theorem C8_keys_from_path_witness:
  "acyclic (parentEdges rootOnlyDb) \<and> getConfigNode rootOnlyDb 1 = Some production \<and>
   (\<exists>path r. getConfigNodePath rootOnlyDb 1 = Some path \<and>
      resolveConfiguration rootOnlyDb 1 = Some r \<and>
      dom r = insert ''$NAME'' (\<Union>x \<in> set path. keysOf x))"
  by (rule conjI[OF rootOnlyDb_acyclic
        conjI[OF rootOnlyDb_get1 C8_keys_from_path[OF rootOnlyDb_acyclic rootOnlyDb_get1]]])

subsection \<open>C9: the embedded-map resolver and the per-row resolver\<close>

text \<open>
  C9, as stated, on equivalent tables of two nodes: the embedded-map resolver binds
  \<^verbatim>\<open>$NAME\<close> in the configuration of node 2, the per-row resolver has no such key in
  \<^verbatim>\<open>Properties\<close>, so the two mappings differ (they agree on \<^verbatim>\<open>api_timeout\<close>).
\<close>

theorem C9_counterexample:
  "equivalentStores sampleUnmarshal twinDb goNodes goProps \<and>
   (case resolveConfiguration twinDb 2 of
      None \<Rightarrow> False
    | Some r \<Rightarrow> r ''$NAME'' = Some (JString ''EastCoast'') \<and>
        r ''api_timeout'' = Some (JNumber 30)) \<and>
   (case ResolveConfiguration sampleUnmarshal goNodes goProps 2 of
      Some (Inr g) \<Rightarrow> Properties g ''$NAME'' = None \<and>
        Properties g ''api_timeout'' = Some (JNumber 30)
    | _ \<Rightarrow> False)"
proof -
  have ts: "fold resolveStep [twinProduction, twinEastCoast] Map.empty ''$NAME''
        = Some (JString ''EastCoast'')"
      "fold resolveStep [twinProduction, twinEastCoast] Map.empty ''api_timeout''
        = Some (JNumber 30)"
    by (simp_all add: resolveStep_def objectAssign_def twinProduction_def twinEastCoast_def)
  have go: "ResolveConfiguration sampleUnmarshal goNodes goProps 2 =
      Some (Inr \<lparr> ResNodeID = 2, NodeName = ''EastCoast'',
                   Properties = [''api_timeout'' \<mapsto> JNumber 30],
                   Path = [goProduction, goEastCoast] \<rparr>)"
    by (simp add: ResolveConfiguration_def go_path Let_def applyProperties_def
        GetPropertiesByNodeID_def unmarshalValue_def sampleUnmarshal_def goProps_def
        goProduction_def goEastCoast_def)
  show ?thesis
    using ts by (simp add: twin_equivalent twin_resolve go)
qed

text \<open>
  C9, amended: for every node of a forest table and equivalent contents of the two
  representations, the per-row resolver returns as \<^verbatim>\<open>Properties\<close> the fold of the
  resolver contract over the path, and the embedded-map resolver returns that same
  mapping with the key \<^verbatim>\<open>$NAME\<close> bound to the node's name, which the per-row resolver
  reports as \<^verbatim>\<open>NodeName\<close>; the two paths hold the same nodes.
\<close>

theorem C9_resolvers_agree_up_to_name:
  assumes "equivalentStores unmarshal db nodes props"
    and "acyclic (parentEdges db)" and "getConfigNode db n = Some node"
  shows "\<exists>path r g. getConfigNodePath db n = Some path \<and>
           resolveConfiguration db n = Some r \<and>
           ResolveConfiguration unmarshal nodes props n = Some (Inr g) \<and>
           Properties g = specResolve path \<and>
           r = (Properties g)(''$NAME'' \<mapsto> JString (NodeName g)) \<and>
           ResNodeID g = n \<and> list_all2 sameNode path (Path g)"
proof -
  from path_of_existing[OF assms(2,3)] obtain path where
    p: "getConfigNodePath db n = Some path" "path \<noteq> []" "last path = node"
      "\<forall>x \<in> set path. getConfigNode db (node_id x) = Some x" by blast
  from assms(1) have nodes: "list_all2 sameNode db nodes" by (simp add: equivalentStores_def)
  from walk_sameNode[OF parentEdges_wf[OF assms(2)] nodes, of "[]" "[]" n] p(1)
  obtain gpath where g: "GetNodePath nodes n = Some gpath" "list_all2 sameNode path gpath"
    by (auto simp: getConfigNodePath_def GetNodePath_def option_rel_Some1)
  from g(2) p(2) have ne: "gpath \<noteq> []" by auto
  from p(4) have sub: "set path \<subseteq> set db" by (auto dest: getConfigNode_SomeD)
  have fold: "fold (\<lambda>node m. applyProperties unmarshal (GetPropertiesByNodeID props (ID node)) m)
      gpath Map.empty = specResolve path"
    unfolding specResolve_def by (rule go_fold_is_specFold[OF assms(1) g(2) sub])
  have nm: "Name (last gpath) = name node"
    using list_all2_last[OF g(2) p(2)] p(3) by (simp add: sameNode_def)
  let ?g = "\<lparr> ResNodeID = n, NodeName = Name (last gpath),
             Properties = specResolve path, Path = gpath \<rparr>"
  have go: "ResolveConfiguration unmarshal nodes props n = Some (Inr ?g)"
    using g(1) ne fold by (simp add: ResolveConfiguration_def Let_def last_conv_nth)
  have ts: "resolveConfiguration db n
      = Some ((specResolve path)(''$NAME'' \<mapsto> JString (name node)))"
    using p by (simp add: resolveConfiguration_def fold_resolveStep_eq)
  show ?thesis
    using p(1) go ts nm g(2) by simp
qed

theorem C9_resolvers_agree_up_to_name_witness:
  "equivalentStores sampleUnmarshal twinDb goNodes goProps \<and>
   acyclic (parentEdges twinDb) \<and> getConfigNode twinDb 2 = Some twinEastCoast \<and>
   (\<exists>path r g. getConfigNodePath twinDb 2 = Some path \<and>
      resolveConfiguration twinDb 2 = Some r \<and>
      ResolveConfiguration sampleUnmarshal goNodes goProps 2 = Some (Inr g) \<and>
      Properties g = specResolve path \<and>
      r = (Properties g)(''$NAME'' \<mapsto> JString (NodeName g)) \<and>
      ResNodeID g = 2 \<and> list_all2 sameNode path (Path g))"
  by (rule conjI[OF twin_equivalent conjI[OF twin_acyclic conjI[OF twin_get2
        C9_resolvers_agree_up_to_name[OF twin_equivalent twin_acyclic twin_get2]]]])

subsection \<open>C10: the injected key \<^verbatim>\<open>$NAME\<close>\<close>

text \<open>
  C10: for every node \<open>n\<close> of a forest table, the resolved configuration of \<open>n\<close> binds
  \<^verbatim>\<open>$NAME\<close> to the name of the last node of the path, which is \<open>n\<close> itself, whatever the
  nodes of the path store under that key.
\<close>

theorem C10_name_injected:
  assumes "acyclic (parentEdges db)" and "getConfigNode db n = Some node"
  shows "\<exists>path r. getConfigNodePath db n = Some path \<and> path \<noteq> [] \<and> last path = node \<and>
           resolveConfiguration db n = Some r \<and>
           r ''$NAME'' = Some (JString (name (last path)))"
proof -
  from path_of_existing[OF assms] obtain path where
    p: "getConfigNodePath db n = Some path" "path \<noteq> []" "last path = node" by blast
  then show ?thesis
    by (simp add: resolveConfiguration_def fold_resolveStep_name)
qed

theorem C10_name_injected_witness:
  "acyclic (parentEdges exampleDb) \<and> getConfigNode exampleDb 2 = Some eastCoast \<and>
   map_of (properties eastCoast) ''$NAME'' = Some (JNumber 5) \<and>
   (\<exists>path r. getConfigNodePath exampleDb 2 = Some path \<and> path \<noteq> [] \<and>
      last path = eastCoast \<and> resolveConfiguration exampleDb 2 = Some r \<and>
      r ''$NAME'' = Some (JString (name (last path))))"
proof -
  have "map_of (properties eastCoast) ''$NAME'' = Some (JNumber 5)"
    by (simp add: eastCoast_def)
  with C10_name_injected[OF exampleDb_acyclic exampleDb_get2] exampleDb_acyclic exampleDb_get2
  show ?thesis by simp
qed


end
